theory Spec2Isabelle
  imports Complex_Main "HOL-Library.Word"
begin

section \<open>fastLM: a single attention block with a binary model loader\<close>

text \<open>
  The development embeds \<^verbatim>\<open>src/main.cpp\<close>. A \<^verbatim>\<open>Matrix\<close> is a vector of rows, each a
  vector of \<^verbatim>\<open>float\<close>. The element type is left open: the single-precision operations
  the source uses are collected in a record of operations, so that every structural
  theorem holds for whatever the platform computes, rounding, infinities and NaN
  included.

  Dimensions and loop counters are natural numbers. The source keeps them in \<^verbatim>\<open>int\<close>;
  the two agree as long as every dimension is at most \<^verbatim>\<open>INT_MAX\<close>, which is part of
  the notion of a valid matrix below.
\<close>

subsection \<open>Failures\<close>

text \<open>
  \<^item> \<open>DimensionMismatch\<close>: \<^verbatim>\<open>matmul\<close> prints "Dimension mismatch!" and calls \<^verbatim>\<open>exit(1)\<close>;
  \<^item> \<open>InvalidFormat\<close>: \<^verbatim>\<open>main\<close> prints "Invalid file format!" and returns 1;
  \<^item> \<open>StreamUnavailable\<close>: \<^verbatim>\<open>fopen\<close> returned a null pointer, \<^verbatim>\<open>main\<close> returns 1;
  \<^item> \<open>LengthError\<close>: a vector is constructed from a negative \<^verbatim>\<open>int\<close>, which converts
    to a size beyond \<^verbatim>\<open>max_size()\<close>, and the constructor throws;
  \<^item> \<open>OutOfBounds\<close>: an element is read or written outside its vector (undefined
    behaviour in the source; the model stops there).
\<close>

datatype error = DimensionMismatch | InvalidFormat | StreamUnavailable | LengthError | OutOfBounds

definition bind_err :: "error + 'a \<Rightarrow> ('a \<Rightarrow> error + 'b) \<Rightarrow> error + 'b" where
  "bind_err m f = (case m of Inl e \<Rightarrow> Inl e | Inr x \<Rightarrow> f x)"

text \<open>
  \<^verbatim>\<open>for (int i = 0; i < n; i++) body\<close>: the iterations \<open>0, \<dots>, n - 1\<close> in this order,
  each on the state the previous one left; a failure ends the loop.
\<close>

primrec for_loop :: "nat \<Rightarrow> (nat \<Rightarrow> 's \<Rightarrow> error + 's) \<Rightarrow> 's \<Rightarrow> error + 's" where
  "for_loop 0 body s = Inr s"
| "for_loop (Suc n) body s = bind_err (for_loop n body s) (body n)"

subsection \<open>Single-precision arithmetic\<close>

text \<open>
  The operations of \<^verbatim>\<open>float\<close> that the source uses: a literal converted to \<^verbatim>\<open>float\<close>
  (\<^verbatim>\<open>0.0f\<close>, \<^verbatim>\<open>0.5f\<close>, \<^verbatim>\<open>-1e9\<close>), the conversion \<^verbatim>\<open>(float)\<close> of an integer,
  \<^verbatim>\<open>+\<close>, \<^verbatim>\<open>-\<close>, \<^verbatim>\<open>*\<close>, \<^verbatim>\<open>/\<close>, \<^verbatim>\<open>std::exp\<close>, \<^verbatim>\<open>std::sqrt\<close> and \<^verbatim>\<open>>\<close>.
\<close>

record 'a arith =
  f_lit :: "rat \<Rightarrow> 'a"
  f_conv :: "int \<Rightarrow> 'a"
  f_add :: "'a \<Rightarrow> 'a \<Rightarrow> 'a"
  f_sub :: "'a \<Rightarrow> 'a \<Rightarrow> 'a"
  f_mul :: "'a \<Rightarrow> 'a \<Rightarrow> 'a"
  f_div :: "'a \<Rightarrow> 'a \<Rightarrow> 'a"
  f_exp :: "'a \<Rightarrow> 'a"
  f_sqrt :: "'a \<Rightarrow> 'a"
  f_gt :: "'a \<Rightarrow> 'a \<Rightarrow> bool"

text \<open>
  One interpretation, used for concrete runs: a finite \<^verbatim>\<open>float\<close> is the real number it
  denotes and every operation returns its exact result rounded by \<open>rnd\<close>. With
  \<open>rnd = id\<close> this is exact real arithmetic.
\<close>

definition rounded_arith :: "(real \<Rightarrow> real) \<Rightarrow> real arith" where
  "rounded_arith rnd =
     \<lparr> f_lit = (\<lambda>q. rnd (of_rat q)),
       f_conv = (\<lambda>n. rnd (of_int n)),
       f_add = (\<lambda>x y. rnd (x + y)),
       f_sub = (\<lambda>x y. rnd (x - y)),
       f_mul = (\<lambda>x y. rnd (x * y)),
       f_div = (\<lambda>x y. rnd (x / y)),
       f_exp = (\<lambda>x. rnd (exp x)),
       f_sqrt = (\<lambda>x. rnd (sqrt x)),
       f_gt = (\<lambda>x y. x > y) \<rparr>"

definition exact_arith :: "real arith" where
  "exact_arith = rounded_arith id"

subsection \<open>Matrices\<close>

type_synonym 'a Matrix = "'a list list"

text \<open>
  \<^verbatim>\<open>Matrix m(rows, std::vector<float>(cols, fill))\<close>. Memory is taken to suffice: an
  allocation of a non-negative size succeeds.
\<close>

definition alloc :: "nat \<Rightarrow> nat \<Rightarrow> 'a \<Rightarrow> 'a Matrix" where
  "alloc rows cols fill = replicate rows (replicate cols fill)"

text \<open>\<^verbatim>\<open>m[0].size()\<close>, which needs a first row.\<close>

definition row0_size :: "'a Matrix \<Rightarrow> error + nat" where
  "row0_size m = (if m = [] then Inl OutOfBounds else Inr (length (m ! 0)))"

text \<open>Reading \<^verbatim>\<open>m[i][j]\<close> and assigning to it.\<close>

definition elem :: "'a Matrix \<Rightarrow> nat \<Rightarrow> nat \<Rightarrow> error + 'a" where
  "elem m i j =
     (if i < length m \<and> j < length (m ! i) then Inr (m ! i ! j) else Inl OutOfBounds)"

definition store :: "'a Matrix \<Rightarrow> nat \<Rightarrow> nat \<Rightarrow> 'a \<Rightarrow> error + 'a Matrix" where
  "store m i j v =
     (if i < length m \<and> j < length (m ! i) then Inr (m[i := (m ! i)[j := v]])
      else Inl OutOfBounds)"

subsection \<open>Random initialisation\<close>

text \<open>
  \<^verbatim>\<open>rand()\<close> reads and advances a hidden global state. Here the pseudo-random source is
  the sequence \<open>draws\<close> of the values that \<^verbatim>\<open>rand()\<close> is going to return together with
  the number \<open>g\<close> of calls made so far; \<open>RAND_MAX\<close> is the platform's constant. The two
  dimensions are \<^verbatim>\<open>int\<close> parameters.
\<close>

definition createRandomMatrix ::
  "'a arith \<Rightarrow> int \<Rightarrow> (nat \<Rightarrow> int) \<Rightarrow> nat \<Rightarrow> int \<Rightarrow> int \<Rightarrow> error + ('a Matrix \<times> nat)" where
  "createRandomMatrix ops RAND_MAX draws g rows cols =
     (if rows < 0 \<or> cols < 0 then Inl LengthError
      else
        for_loop (nat rows) (\<lambda>i.
          for_loop (nat cols) (\<lambda>j (m, g).
            bind_err (store m i j (f_div ops (f_conv ops (draws g)) (f_conv ops RAND_MAX)))
              (\<lambda>m. Inr (m, Suc g))))
          (alloc (nat rows) (nat cols) (f_lit ops 0), g))"

subsection \<open>Math operations\<close>

definition matmul :: "'a arith \<Rightarrow> 'a Matrix \<Rightarrow> 'a Matrix \<Rightarrow> error + 'a Matrix" where
  "matmul ops A B =
     (let rowsA = length A in
      bind_err (row0_size A) (\<lambda>colsA.
      let rowsB = length B in
      bind_err (row0_size B) (\<lambda>colsB.
        if colsA \<noteq> rowsB then Inl DimensionMismatch
        else
          for_loop rowsA (\<lambda>i.
            for_loop colsB (\<lambda>j.
              for_loop colsA (\<lambda>k C.
                bind_err (elem C i j) (\<lambda>c.
                bind_err (elem A i k) (\<lambda>a.
                bind_err (elem B k j) (\<lambda>b.
                  store C i j (f_add ops c (f_mul ops a b))))))))
            (alloc rowsA colsB (f_lit ops 0)))))"

definition transposeM :: "'a arith \<Rightarrow> 'a Matrix \<Rightarrow> error + 'a Matrix" where
  "transposeM ops m =
     (let rows = length m in
      bind_err (row0_size m) (\<lambda>cols.
        for_loop rows (\<lambda>i.
          for_loop cols (\<lambda>j result.
            bind_err (elem m i j) (\<lambda>v. store result j i v)))
          (alloc cols rows (f_lit ops 0))))"

text \<open>
  The search for the row maximum in \<^verbatim>\<open>softmax\<close>:
  \<^verbatim>\<open>float max_val = -1e9; for(float val : m[i]) if(val > max_val) max_val = val;\<close>
\<close>

definition softmax_max_val :: "'a arith \<Rightarrow> 'a list \<Rightarrow> 'a" where
  "softmax_max_val ops row =
     fold (\<lambda>val max_val. if f_gt ops val max_val then val else max_val) row
       (f_lit ops (- 1000000000))"

definition softmax :: "'a arith \<Rightarrow> 'a Matrix \<Rightarrow> error + 'a Matrix" where
  "softmax ops m =
     (let rows = length m in
      bind_err (row0_size m) (\<lambda>cols.
        for_loop rows (\<lambda>i m.
          let sum_exp = f_lit ops 0;
              max_val = softmax_max_val ops (m ! i)
          in
          bind_err
            (for_loop cols (\<lambda>j (m, sum_exp).
               bind_err (elem m i j) (\<lambda>x.
               bind_err (store m i j (f_exp ops (f_sub ops x max_val))) (\<lambda>m.
               bind_err (elem m i j) (\<lambda>y.
                 Inr (m, f_add ops sum_exp y)))))
              (m, sum_exp))
            (\<lambda>(m, sum_exp).
               for_loop cols (\<lambda>j m.
                 bind_err (elem m i j) (\<lambda>x. store m i j (f_div ops x sum_exp)))
                 m))
          m))"

definition attention :: "'a arith \<Rightarrow> 'a Matrix \<Rightarrow> 'a Matrix \<Rightarrow> 'a Matrix \<Rightarrow> error + 'a Matrix" where
  "attention ops Q K V =
     bind_err (transposeM ops K) (\<lambda>K_T.
     bind_err (matmul ops Q K_T) (\<lambda>scores.
     bind_err (row0_size Q) (\<lambda>n.
       let d_k = f_conv ops (int n);
           scale = f_sqrt ops d_k
       in
       bind_err
         (for_loop (length scores) (\<lambda>i scores.
            for_loop (length (scores ! 0)) (\<lambda>j scores.
              bind_err (elem scores i j) (\<lambda>x. store scores i j (f_div ops x scale)))
              scores)
            scores)
         (\<lambda>scores.
            bind_err (softmax ops scores) (\<lambda>scores. matmul ops scores V)))))"

subsection \<open>The weight stream\<close>

text \<open>
  A \<^verbatim>\<open>FILE*\<close> opened for reading: the bytes that have not been read yet, and whether
  \<^verbatim>\<open>fclose\<close> has been called on it. \<^verbatim>\<open>fopen\<close> yields a null pointer when the file
  cannot be opened, which is the case \<open>None\<close> of the file system's answer.
\<close>

type_synonym byte = "8 word"

record FILE =
  unread :: "byte list"
  is_open :: bool

definition fopen :: "byte list option \<Rightarrow> FILE option" where
  "fopen fs = (case fs of None \<Rightarrow> None | Some bytes \<Rightarrow> Some \<lparr>unread = bytes, is_open = True\<rparr>)"

definition fclose :: "FILE \<Rightarrow> FILE" where
  "fclose f = f\<lparr>is_open := False\<rparr>"

text \<open>
  \<^verbatim>\<open>fread(ptr, sz, count, f)\<close>, where \<open>buf\<close> is the content of the \<open>sz * count\<close>
  bytes at \<^verbatim>\<open>ptr\<close> before the call: the bytes the stream still has, at most
  \<open>sz * count\<close> of them, replace the beginning of the buffer, and the rest of the
  buffer keeps what it held. The source discards the number of elements that \<^verbatim>\<open>fread\<close>
  returns, so the model does not compute it.
\<close>

definition fread :: "byte list \<Rightarrow> nat \<Rightarrow> nat \<Rightarrow> FILE \<Rightarrow> byte list \<times> FILE" where
  "fread buf sz count f =
     (let got = take (sz * count) (unread f)
      in (got @ drop (length got) buf, f\<lparr>unread := drop (sz * count) (unread f)\<rparr>))"

text \<open>
  A 4-byte integer object and its bytes in memory, on a little-endian host (the byte
  order that the model file format of the specification fixes).
\<close>

definition le_nat :: "byte list \<Rightarrow> nat" where
  "le_nat bs = foldr (\<lambda>b n. unat b + 256 * n) bs 0"

definition uint_of_bytes :: "byte list \<Rightarrow> 32 word" where
  "uint_of_bytes bs = word_of_nat (le_nat bs)"

definition bytes_of_uint :: "32 word \<Rightarrow> byte list" where
  "bytes_of_uint w = map (\<lambda>k. word_of_nat (unat w div 256 ^ k)) [0, 1, 2, 3]"

text \<open>
  \<^verbatim>\<open>fread(&x, sizeof(int), 1, f)\<close> for a 4-byte integer variable that holds \<open>x\<close>
  before the call.
\<close>

definition fread_int :: "32 word \<Rightarrow> FILE \<Rightarrow> 32 word \<times> FILE" where
  "fread_int x f = (let (bytes, f) = fread (bytes_of_uint x) 4 1 f in (uint_of_bytes bytes, f))"

subsection \<open>Loading the weights\<close>

text \<open>
  The loader copies bytes into the storage of the matrices, so here a \<^verbatim>\<open>float\<close> is its
  object representation, four bytes; \<^verbatim>\<open>0.0f\<close>, the value a vector is filled with when
  no fill value is given, is four zero bytes.
\<close>

type_synonym f32 = "byte list"

definition zero_f32 :: f32 where
  "zero_f32 = [0, 0, 0, 0]"

fun floats_of_bytes :: "byte list \<Rightarrow> f32 list" where
  "floats_of_bytes (a # b # c # d # rest) = [a, b, c, d] # floats_of_bytes rest"
| "floats_of_bytes _ = []"

text \<open>
  \<^verbatim>\<open>loadMatrix\<close>: one \<^verbatim>\<open>fread\<close> of \<open>cols\<close> floats per row, into \<^verbatim>\<open>m[i].data()\<close>. A row
  shorter than \<open>cols\<close> would be written beyond its end.
\<close>

definition loadMatrix :: "FILE \<Rightarrow> f32 Matrix \<Rightarrow> error + (FILE \<times> f32 Matrix)" where
  "loadMatrix f m =
     (let rows = length m in
      bind_err (row0_size m) (\<lambda>cols.
        for_loop rows (\<lambda>i (f, m).
          if length (m ! i) < cols then Inl OutOfBounds
          else
            let (bytes, f) = fread (concat (m ! i)) 4 cols f
            in Inr (f, m[i := floats_of_bytes bytes]))
          (f, m)))"

record 'a TransformerBlock =
  W_q :: "'a Matrix"
  W_k :: "'a Matrix"
  W_v :: "'a Matrix"
  W_out :: "'a Matrix"

text \<open>The constructor \<^verbatim>\<open>TransformerBlock(int d_model, FILE* f)\<close>.\<close>

definition TransformerBlock_init :: "int \<Rightarrow> FILE \<Rightarrow> error + (FILE \<times> f32 TransformerBlock)" where
  "TransformerBlock_init d_model f =
     (if d_model < 0 then Inl LengthError
      else
        let Wq = alloc (nat d_model) (nat d_model) zero_f32;
            Wk = alloc (nat d_model) (nat d_model) zero_f32;
            Wv = alloc (nat d_model) (nat d_model) zero_f32;
            Wout = alloc (nat d_model) (nat d_model) zero_f32
        in
        bind_err (loadMatrix f Wq) (\<lambda>(f, Wq).
        bind_err (loadMatrix f Wk) (\<lambda>(f, Wk).
        bind_err (loadMatrix f Wv) (\<lambda>(f, Wv).
        bind_err (loadMatrix f Wout) (\<lambda>(f, Wout).
          Inr (f, \<lparr>W_q = Wq, W_k = Wk, W_v = Wv, W_out = Wout\<rparr>))))))"

definition forward :: "'a arith \<Rightarrow> 'a TransformerBlock \<Rightarrow> 'a Matrix \<Rightarrow> error + 'a Matrix" where
  "forward ops blk input =
     bind_err (matmul ops input (W_q blk)) (\<lambda>Q.
     bind_err (matmul ops input (W_k blk)) (\<lambda>K.
     bind_err (matmul ops input (W_v blk)) (\<lambda>V.
     bind_err (attention ops Q K V) (\<lambda>attn_out.
       matmul ops attn_out (W_out blk)))))"

subsection \<open>The driver\<close>

text \<open>
  \<^verbatim>\<open>magic\<close>, \<^verbatim>\<open>layers\<close> and \<^verbatim>\<open>d_model\<close> are declared without an initial value: what
  they hold before \<^verbatim>\<open>fread\<close> fills them is a parameter of the run.
\<close>

record uninit =
  magic0 :: "32 word"
  layers0 :: "32 word"
  d_model0 :: "32 word"

text \<open>
  Steps 2 and 3 of \<^verbatim>\<open>main\<close>: the magic number, then the two dimensions. The result is
  the stream as the step leaves it and either the failure or \<open>(layers, d_model)\<close>.
\<close>

definition read_header :: "uninit \<Rightarrow> FILE \<Rightarrow> FILE \<times> (error + int \<times> int)" where
  "read_header u f =
     (let (magic, f) = fread_int (magic0 u) f in
      if magic \<noteq> 0xFEEDBEEF then (f, Inl InvalidFormat)
      else
        let (layers, f) = fread_int (layers0 u) f;
            (d_model, f) = fread_int (d_model0 u) f
        in (f, Inr (sint layers, sint d_model)))"

text \<open>
  What a run of \<^verbatim>\<open>main\<close> leaves behind: the failure that ended it, if any; the stream,
  if one was opened, in its last state; and the output matrix of the forward pass.
  Printing and the timer are left out.
\<close>

record 'a run =
  failure :: "error option"
  stream :: "FILE option"
  final_output :: "'a Matrix option"

definition main :: "f32 arith \<Rightarrow> byte list option \<Rightarrow> uninit \<Rightarrow> f32 run" where
  "main ops fs u =
     (case fopen fs of
        None \<Rightarrow> \<lparr>failure = Some StreamUnavailable, stream = None, final_output = None\<rparr>
      | Some f \<Rightarrow>
          (case read_header u f of
             (f, Inl e) \<Rightarrow> \<lparr>failure = Some e, stream = Some f, final_output = None\<rparr>
           | (f, Inr (layers, d_model)) \<Rightarrow>
               (case TransformerBlock_init d_model f of
                  Inl e \<Rightarrow> \<lparr>failure = Some e, stream = Some f, final_output = None\<rparr>
                | Inr (f, layer1) \<Rightarrow>
                    let f = fclose f in
                    (case
                       bind_err
                         (for_loop 3 (\<lambda>i.
                            for_loop (nat d_model) (\<lambda>j input. store input i j (f_lit ops (1 / 2))))
                            (alloc 3 (nat d_model) (f_lit ops 0)))
                         (\<lambda>input. forward ops layer1 input)
                     of
                       Inl e \<Rightarrow> \<lparr>failure = Some e, stream = Some f, final_output = None\<rparr>
                     | Inr out \<Rightarrow> \<lparr>failure = None, stream = Some f, final_output = Some out\<rparr>))))"

section \<open>The specification's vocabulary\<close>

text \<open>
  The shape of a matrix. A valid matrix is rectangular with at least one row and one
  column, and its dimensions fit the \<^verbatim>\<open>int\<close> variables that hold them in the source.
\<close>

definition INT_MAX :: nat where
  "INT_MAX = 2147483647"

definition rows :: "'a Matrix \<Rightarrow> nat" where
  "rows m = length m"

definition cols :: "'a Matrix \<Rightarrow> nat" where
  "cols m = length (m ! 0)"

definition rect :: "nat \<Rightarrow> nat \<Rightarrow> 'a Matrix \<Rightarrow> bool" where
  "rect r c m = (length m = r \<and> (\<forall>row \<in> set m. length row = c))"

definition valid_matrix :: "'a Matrix \<Rightarrow> bool" where
  "valid_matrix m =
     (rect (rows m) (cols m) m \<and> 0 < rows m \<and> 0 < cols m \<and> rows m \<le> INT_MAX \<and> cols m \<le> INT_MAX)"

text \<open>
  \<open>\<Sigma>\<^sub>k f k\<close> for \<open>k < n\<close> in single precision: the terms are added one after the other,
  from \<open>k = 0\<close> on, to an accumulator that starts at \<^verbatim>\<open>0.0f\<close>.
\<close>

definition sigma :: "'a arith \<Rightarrow> nat \<Rightarrow> (nat \<Rightarrow> 'a) \<Rightarrow> 'a" where
  "sigma ops n f = foldl (\<lambda>acc k. f_add ops acc (f k)) (f_lit ops 0) [0..<n]"

text \<open>\<open>C[i][j] = \<Sigma>\<^sub>k A[i][k] \<cdot> B[k][j]\<close>, of shape \<open>rows A \<times> cols B\<close>.\<close>

definition spec_multiply :: "'a arith \<Rightarrow> 'a Matrix \<Rightarrow> 'a Matrix \<Rightarrow> 'a Matrix" where
  "spec_multiply ops A B =
     map (\<lambda>i. map (\<lambda>j. sigma ops (cols A) (\<lambda>k. f_mul ops (A ! i ! k) (B ! k ! j))) [0..<cols B])
       [0..<rows A]"

text \<open>\<open>M'[j][i] = M[i][j]\<close>, of shape \<open>cols M \<times> rows M\<close>.\<close>

definition spec_transpose :: "'a Matrix \<Rightarrow> 'a Matrix" where
  "spec_transpose m = map (\<lambda>j. map (\<lambda>i. m ! i ! j) [0..<rows m]) [0..<cols m]"

text \<open>
  The softmax kernel on one row, as a function: the value \<open>max_val\<close> that the source
  computes is subtracted from every element, the result is exponentiated, and every
  exponential is divided by their sum, accumulated from the left starting at \<^verbatim>\<open>0.0f\<close>.
\<close>

definition softmax_row :: "'a arith \<Rightarrow> 'a list \<Rightarrow> 'a list" where
  "softmax_row ops row =
     (let max_val = softmax_max_val ops row;
          es = map (\<lambda>x. f_exp ops (f_sub ops x max_val)) row;
          sum_exp = foldl (f_add ops) (f_lit ops 0) es
      in map (\<lambda>e. f_div ops e sum_exp) es)"

definition softmax_rows :: "'a arith \<Rightarrow> 'a Matrix \<Rightarrow> 'a Matrix" where
  "softmax_rows ops m = map (softmax_row ops) m"

text \<open>Every element divided by \<open>sqrt(d_k)\<close>.\<close>

definition spec_scale :: "'a arith \<Rightarrow> nat \<Rightarrow> 'a Matrix \<Rightarrow> 'a Matrix" where
  "spec_scale ops d_k m = map (map (\<lambda>x. f_div ops x (f_sqrt ops (f_conv ops (int d_k))))) m"

text \<open>\<open>softmax((Q \<times> transpose(K)) / sqrt(d_k)) \<times> V\<close>, where \<open>d_k\<close> is the column count of \<open>Q\<close>.\<close>

definition spec_attention :: "'a arith \<Rightarrow> 'a Matrix \<Rightarrow> 'a Matrix \<Rightarrow> 'a Matrix \<Rightarrow> 'a Matrix" where
  "spec_attention ops Q K V =
     spec_multiply ops
       (softmax_rows ops (spec_scale ops (cols Q) (spec_multiply ops Q (spec_transpose K)))) V"


text \<open>
  The first \<open>n\<close> bytes of a stream, followed by zero bytes where the stream ends before
  them.
\<close>

definition padded_prefix :: "nat \<Rightarrow> byte list \<Rightarrow> byte list" where
  "padded_prefix n bs = take n bs @ replicate (n - length bs) 0"

text \<open>
  The cells of the four weight matrices in the order in which they are loaded, row by
  row, \<open>W_q\<close>, \<open>W_k\<close>, \<open>W_v\<close>, \<open>W_out\<close>; and the bytes that they occupy.
\<close>

definition block_cells :: "'a TransformerBlock \<Rightarrow> 'a list" where
  "block_cells blk = concat (W_q blk) @ concat (W_k blk) @ concat (W_v blk) @ concat (W_out blk)"

definition block_bytes :: "f32 TransformerBlock \<Rightarrow> byte list" where
  "block_bytes blk = concat (block_cells blk)"

text \<open>
  The first \<open>k\<close> rows of a zero-filled matrix with \<open>c\<close> columns after \<^verbatim>\<open>loadMatrix\<close> has
  filled them from the bytes \<open>bs\<close>.
\<close>

definition loaded_rows :: "nat \<Rightarrow> byte list \<Rightarrow> nat \<Rightarrow> f32 Matrix" where
  "loaded_rows c bs k =
     map (\<lambda>i. floats_of_bytes (padded_prefix (4 * c) (drop (4 * c * i) bs))) [0..<k]"

text \<open>
  The matrix of \<^verbatim>\<open>createRandomMatrix\<close>: the element in row \<open>i\<close> and column \<open>j\<close> is
  \<^verbatim>\<open>(float)rand() / RAND_MAX\<close> for the call of \<^verbatim>\<open>rand()\<close> number \<open>g + i \<cdot> c + j\<close>.
\<close>

definition spec_random :: "'a arith \<Rightarrow> int \<Rightarrow> (nat \<Rightarrow> int) \<Rightarrow> nat \<Rightarrow> nat \<Rightarrow> nat \<Rightarrow> 'a Matrix" where
  "spec_random ops RAND_MAX draws g r c =
     map (\<lambda>i. map (\<lambda>j. f_div ops (f_conv ops (draws (g + i * c + j))) (f_conv ops RAND_MAX)) [0..<c])
       [0..<r]"

text \<open>A pseudo-random source that returns the same value at every call.\<close>

definition constant_source :: "int \<Rightarrow> nat \<Rightarrow> int" where
  "constant_source v k = v"

text \<open>The value of \<open>C[i][j]\<close> after \<open>n\<close> rounds of the innermost loop of \<^verbatim>\<open>matmul\<close>.\<close>

definition dot_from :: "'a arith \<Rightarrow> 'a Matrix \<Rightarrow> 'a Matrix \<Rightarrow> nat \<Rightarrow> nat \<Rightarrow> 'a \<Rightarrow> nat \<Rightarrow> 'a" where
  "dot_from ops A B i j init n =
     foldl (\<lambda>acc k. f_add ops acc (f_mul ops (A ! i ! k) (B ! k ! j))) init [0..<n]"

section \<open>Iteration and failures\<close>

lemma bind_err_Inr [simp]: "bind_err (Inr x) f = f x"
  by (simp add: bind_err_def)

lemma bind_err_Inl [simp]: "bind_err (Inl e) f = Inl e"
  by (simp add: bind_err_def)

lemma for_loop_invariant:
  assumes "I 0 s"
    and "\<And>k t. k < n \<Longrightarrow> I k t \<Longrightarrow> \<exists>t'. body k t = Inr t' \<and> I (Suc k) t'"
  shows "\<exists>t. for_loop n body s = Inr t \<and> I n t"
proof -
  have "m \<le> n \<Longrightarrow> \<exists>t. for_loop m body s = Inr t \<and> I m t" for m
  proof (induction m)
    case 0
    then show ?case using assms(1) by simp
  next
    case (Suc m)
    then obtain t where t: "for_loop m body s = Inr t" "I m t" by auto
    from Suc.prems have "m < n" by simp
    from assms(2)[OF this t(2)] obtain t' where "body m t = Inr t'" "I (Suc m) t'" by blast
    with t show ?case by simp
  qed
  then show ?thesis by simp
qed

lemma rect_nth: "rect r c m \<Longrightarrow> i < r \<Longrightarrow> length (m ! i) = c"
  by (simp add: rect_def)

lemma elem_rect [simp]: "rect r c m \<Longrightarrow> i < r \<Longrightarrow> j < c \<Longrightarrow> elem m i j = Inr (m ! i ! j)"
  by (simp add: elem_def rect_def)

lemma store_rect [simp]:
  "rect r c m \<Longrightarrow> i < r \<Longrightarrow> j < c \<Longrightarrow> store m i j v = Inr (m[i := (m ! i)[j := v]])"
  by (simp add: store_def rect_def)

lemma rect_update: "rect r c m \<Longrightarrow> length row = c \<Longrightarrow> rect r c (m[i := row])"
  by (auto simp: rect_def dest: set_update_subset_insert[THEN subsetD])

lemma matmul_k_loop:
  assumes C: "rect r c C" and A: "rect r n A" and B: "rect n c B" and i: "i < r" and j: "j < c"
  shows "for_loop n (\<lambda>k C.
                bind_err (elem C i j) (\<lambda>c.
                bind_err (elem A i k) (\<lambda>a.
                bind_err (elem B k j) (\<lambda>b.
                  store C i j (f_add ops c (f_mul ops a b)))))) C
         = Inr (C[i := (C ! i)[j := dot_from ops A B i j (C ! i ! j) n]])"
proof -
  let ?I = "\<lambda>k D. D = C[i := (C ! i)[j := dot_from ops A B i j (C ! i ! j) k]]"
  have "\<exists>t. for_loop n (\<lambda>k C.
                bind_err (elem C i j) (\<lambda>c.
                bind_err (elem A i k) (\<lambda>a.
                bind_err (elem B k j) (\<lambda>b.
                  store C i j (f_add ops c (f_mul ops a b)))))) C = Inr t \<and> ?I n t"
  proof (rule for_loop_invariant)
    show "?I 0 C" by (simp add: dot_from_def)
  next
    fix k D assume k: "k < n" and D: "?I k D"
    have rD: "rect r c D" unfolding D using C i j by (intro rect_update) (simp_all add: rect_nth)
    have Dij: "D ! i ! j = dot_from ops A B i j (C ! i ! j) k"
      unfolding D using C i j by (simp add: rect_def)
    show "\<exists>t'. bind_err (elem D i j) (\<lambda>c.
                bind_err (elem A i k) (\<lambda>a.
                bind_err (elem B k j) (\<lambda>b.
                  store D i j (f_add ops c (f_mul ops a b))))) = Inr t' \<and> ?I (Suc k) t'"
      using rD A B i j k C by (simp add: Dij) (simp add: D dot_from_def rect_def)
  qed
  then show ?thesis by auto
qed

lemma matmul_j_loop:
  assumes C: "rect r c C" and A: "rect r n A" and B: "rect n c B" and i: "i < r" and m: "m \<le> c"
  shows "for_loop m (\<lambda>j. for_loop n (\<lambda>k C.
                bind_err (elem C i j) (\<lambda>c.
                bind_err (elem A i k) (\<lambda>a.
                bind_err (elem B k j) (\<lambda>b.
                  store C i j (f_add ops c (f_mul ops a b))))))) C
         = Inr (C[i := map (\<lambda>j. dot_from ops A B i j (C ! i ! j) n) [0..<m] @ drop m (C ! i)])"
  using m
proof (induction m)
  case 0
  then show ?case by simp
next
  case (Suc m)
  let ?row = "map (\<lambda>j. dot_from ops A B i j (C ! i ! j) n) [0..<m] @ drop m (C ! i)"
  let ?D = "C[i := ?row]"
  have len: "length (C ! i) = c" using C i by (simp add: rect_nth)
  have lrow: "length ?row = c" using Suc.prems len by simp
  have rD: "rect r c ?D" using C lrow by (rule rect_update)
  have mc: "m < c" using Suc.prems by simp
  have Di: "?D ! i = ?row" using C i by (simp add: rect_def)
  have Dim: "?row ! m = C ! i ! m" using mc len by (simp add: nth_append)
  have upd: "?row[m := v] = map (\<lambda>j. dot_from ops A B i j (C ! i ! j) n) [0..<m] @ v # drop (Suc m) (C ! i)" for v
    using mc len by (simp add: list_update_append Cons_nth_drop_Suc[symmetric] upd_conv_take_nth_drop)
  show ?case
    using Suc.IH mc
    by (simp add: matmul_k_loop[OF rD A B i mc] Di Dim upd)
qed

lemma matmul_i_loop:
  assumes C: "rect r c C" and A: "rect r n A" and B: "rect n c B" and m: "m \<le> r"
  shows "for_loop m (\<lambda>i. for_loop c (\<lambda>j. for_loop n (\<lambda>k C.
                bind_err (elem C i j) (\<lambda>c.
                bind_err (elem A i k) (\<lambda>a.
                bind_err (elem B k j) (\<lambda>b.
                  store C i j (f_add ops c (f_mul ops a b)))))))) C
         = Inr (map (\<lambda>i. map (\<lambda>j. dot_from ops A B i j (C ! i ! j) n) [0..<c]) [0..<m] @ drop m C)"
  using m
proof (induction m)
  case 0
  then show ?case by simp
next
  case (Suc m)
  let ?f = "\<lambda>i. map (\<lambda>j. dot_from ops A B i j (C ! i ! j) n) [0..<c]"
  let ?D = "map ?f [0..<m] @ drop m C"
  have mr: "m < r" using Suc.prems by simp
  have lenC: "length C = r" using C by (simp add: rect_def)
  have rD: "rect r c ?D"
    using C mr by (auto simp: rect_def dest: in_set_dropD)
  have Dm: "?D ! m = C ! m" using mr lenC by (simp add: nth_append)
  have lCm: "length (C ! m) = c" using C mr by (simp add: rect_nth)
  have upd: "?D[m := row] = map ?f [0..<m] @ row # drop (Suc m) C" for row
    using mr lenC by (simp add: list_update_append Cons_nth_drop_Suc[symmetric] upd_conv_take_nth_drop)
  show ?case
    using Suc.IH mr
    by (simp add: matmul_j_loop[OF rD A B mr order_refl] Dm lCm upd)
qed

lemma spec_multiply_rect: "rect (rows A) (cols B) (spec_multiply ops A B)"
  by (auto simp: rect_def spec_multiply_def)

lemma matmul_rect:
  assumes A: "rect r n A" and B: "rect n c B" and r: "0 < r" and n: "0 < n"
  shows "matmul ops A B = Inr (spec_multiply ops A B)"
proof -
  have A0: "A \<noteq> []" "length A = r" "length (A ! 0) = n"
    using A r by (auto simp: rect_def)
  have B0: "B \<noteq> []" "length B = n" "length (B ! 0) = c"
    using B n by (auto simp: rect_def)
  have C: "rect r c (alloc r c (f_lit ops 0))"
    by (simp add: rect_def alloc_def)
  have "map (\<lambda>i. map (\<lambda>j. dot_from ops A B i j (alloc r c (f_lit ops 0) ! i ! j) n) [0..<c]) [0..<r]
        = spec_multiply ops A B"
    by (simp add: spec_multiply_def rows_def cols_def A0 B0 alloc_def dot_from_def sigma_def)
  then show ?thesis
    using A0 B0 C
    by (simp add: matmul_def row0_size_def matmul_i_loop[OF C A B order_refl] rect_def)
qed

lemma update_at_split:
  "n < length xs \<Longrightarrow> length ys = n \<Longrightarrow> (ys @ drop n xs)[n := v] = ys @ v # drop (Suc n) xs"
  by (simp add: list_update_append Cons_nth_drop_Suc[symmetric] upd_conv_take_nth_drop)

lemma nth_at_split:
  "n < length xs \<Longrightarrow> length ys = n \<Longrightarrow> (ys @ drop n xs) ! n = xs ! n"
  by (simp add: nth_append)

lemma transpose_j_loop:
  assumes R: "rect c r R" and M: "rect r c m" and i: "i < r" and n: "n \<le> c"
  shows "for_loop n (\<lambda>j result. bind_err (elem m i j) (\<lambda>v. store result j i v)) R
         = Inr (map (\<lambda>j. (R ! j)[i := m ! i ! j]) [0..<n] @ drop n R)"
  using n
proof (induction n)
  case 0
  then show ?case by simp
next
  case (Suc n)
  let ?f = "\<lambda>j. (R ! j)[i := m ! i ! j]"
  let ?D = "map ?f [0..<n] @ drop n R"
  have nc: "n < c" using Suc.prems by simp
  have lenR: "length R = c" using R by (simp add: rect_def)
  have rD: "rect c r ?D"
    using R nc by (auto simp: rect_def dest: in_set_dropD)
  have Dn: "?D ! n = R ! n" using nc lenR by (simp add: nth_at_split)
  have upd: "?D[n := row] = map ?f [0..<n] @ row # drop (Suc n) R" for row
    using nc lenR by (simp add: update_at_split)
  show ?case
    using Suc.IH nc M i rD by (simp add: Dn upd)
qed

lemma transpose_i_loop:
  assumes R: "rect c r R" and M: "rect r c m" and k: "k \<le> r"
  shows "for_loop k (\<lambda>i. for_loop c (\<lambda>j result.
            bind_err (elem m i j) (\<lambda>v. store result j i v))) R
         = Inr (map (\<lambda>j. map (\<lambda>i. m ! i ! j) [0..<k] @ drop k (R ! j)) [0..<c])"
  using k
proof (induction k)
  case 0
  have "map (\<lambda>j. R ! j) [0..<c] = R"
    using R map_nth[of R] by (simp add: rect_def)
  then show ?case by simp
next
  case (Suc k)
  let ?g = "\<lambda>j. map (\<lambda>i. m ! i ! j) [0..<k] @ drop k (R ! j)"
  let ?D = "map ?g [0..<c]"
  have kr: "k < r" using Suc.prems by simp
  have rD: "rect c r ?D"
    using R kr by (auto simp: rect_def)
  show ?case
    using Suc.IH kr R
    by (simp add: transpose_j_loop[OF rD M kr order_refl] rect_def update_at_split)
qed

lemma transposeM_rect:
  assumes M: "rect r c m" and r: "0 < r"
  shows "transposeM ops m = Inr (spec_transpose m)"
proof -
  have M0: "m \<noteq> []" "length m = r" "length (m ! 0) = c"
    using M r by (auto simp: rect_def)
  have R: "rect c r (alloc c r (f_lit ops 0))"
    by (simp add: rect_def alloc_def)
  have "map (\<lambda>j. map (\<lambda>i. m ! i ! j) [0..<r] @ drop r (alloc c r (f_lit ops 0) ! j)) [0..<c]
        = spec_transpose m"
    using M0 by (simp add: spec_transpose_def rows_def cols_def alloc_def)
  then show ?thesis
    using M0
    by (simp add: transposeM_def row0_size_def transpose_i_loop[OF R M order_refl])
qed

lemma spec_transpose_rect: "rect (cols m) (rows m) (spec_transpose m)"
  by (auto simp: rect_def spec_transpose_def)

lemma prefix_update:
  "n < length xs \<Longrightarrow> (map h (take n xs) @ drop n xs)[n := h (xs ! n)]
     = map h (take (Suc n) xs) @ drop (Suc n) xs"
  by (simp add: update_at_split take_Suc_conv_app_nth)

lemma prefix_nth:
  "n < length xs \<Longrightarrow> (map h (take n xs) @ drop n xs) ! n = xs ! n"
  by (simp add: nth_at_split)

lemma row_map_loop:
  assumes M: "rect r c m" and i: "i < r" and n: "n \<le> c"
  shows "for_loop n (\<lambda>j m. bind_err (elem m i j) (\<lambda>x. store m i j (h x))) m
         = Inr (m[i := map h (take n (m ! i)) @ drop n (m ! i)])"
  using n
proof (induction n)
  case 0
  then show ?case by simp
next
  case (Suc n)
  let ?row = "map h (take n (m ! i)) @ drop n (m ! i)"
  let ?D = "m[i := ?row]"
  have nc: "n < c" using Suc.prems by simp
  have len: "length (m ! i) = c" using M i by (simp add: rect_nth)
  have rD: "rect r c ?D" using M nc len by (intro rect_update) simp_all
  have Di: "?D ! i = ?row" using M i by (simp add: rect_def)
  show ?case
    using Suc.IH nc i rD len
    by (simp add: Di prefix_nth prefix_update)
qed

lemma exp_sum_loop:
  assumes M: "rect r c m" and i: "i < r" and n: "n \<le> c"
  shows "for_loop n (\<lambda>j (m, sum_exp).
               bind_err (elem m i j) (\<lambda>x.
               bind_err (store m i j (f_exp ops (f_sub ops x max_val))) (\<lambda>m.
               bind_err (elem m i j) (\<lambda>y.
                 Inr (m, f_add ops sum_exp y))))) (m, s)
         = Inr (m[i := map (\<lambda>x. f_exp ops (f_sub ops x max_val)) (take n (m ! i)) @ drop n (m ! i)],
                foldl (f_add ops) s (map (\<lambda>x. f_exp ops (f_sub ops x max_val)) (take n (m ! i))))"
  using n
proof (induction n)
  case 0
  then show ?case by simp
next
  case (Suc n)
  let ?h = "\<lambda>x. f_exp ops (f_sub ops x max_val)"
  let ?row = "map ?h (take n (m ! i)) @ drop n (m ! i)"
  let ?row' = "map ?h (take (Suc n) (m ! i)) @ drop (Suc n) (m ! i)"
  let ?D = "m[i := ?row]"
  let ?D' = "m[i := ?row']"
  have nc: "n < c" using Suc.prems by simp
  have len: "length (m ! i) = c" using M i by (simp add: rect_nth)
  have lenM: "length m = r" using M by (simp add: rect_def)
  have rD: "rect r c ?D" using M nc len by (intro rect_update) simp_all
  have rD': "rect r c ?D'" using M nc len by (intro rect_update) simp_all
  have Di: "?D ! i = ?row" using lenM i by simp
  have D'i: "?D' ! i = ?row'" using lenM i by simp
  have rd: "elem ?D i n = Inr (m ! i ! n)"
    using nc len by (simp only: elem_rect[OF rD i nc] Di prefix_nth)
  have upd: "?row[n := ?h (m ! i ! n)] = ?row'"
    using nc len prefix_update[of n "m ! i" ?h] by simp
  have wr: "store ?D i n (?h (m ! i ! n)) = Inr ?D'"
    by (simp only: store_rect[OF rD i nc] Di upd list_update_overwrite)
  have "?row' ! n = ?h (m ! i ! n)"
    using nc len by (simp add: nth_append)
  then have rd': "elem ?D' i n = Inr (?h (m ! i ! n))"
    by (simp only: elem_rect[OF rD' i nc] D'i)
  have acc: "foldl (f_add ops) s (map ?h (take (Suc n) (m ! i)))
             = f_add ops (foldl (f_add ops) s (map ?h (take n (m ! i)))) (?h (m ! i ! n))"
    using nc len by (simp add: take_Suc_conv_app_nth)
  from Suc.IH nc show ?case
    by (simp add: rd wr rd' acc del: list_update.simps)
qed

lemma length_softmax_row [simp]: "length (softmax_row ops row) = length row"
  by (simp add: softmax_row_def Let_def)

lemma for_loop_rowwise:
  assumes step: "\<And>i D. i < r \<Longrightarrow> rect r c D \<Longrightarrow> D ! i = m ! i \<Longrightarrow> body i D = Inr (D[i := f (m ! i)])"
    and M: "rect r c m" and f: "\<And>row. length (f row) = length row" and k: "k \<le> r"
  shows "for_loop k body m = Inr (map f (take k m) @ drop k m)"
  using k
proof (induction k)
  case 0
  then show ?case by simp
next
  case (Suc k)
  let ?D = "map f (take k m) @ drop k m"
  have kr: "k < r" using Suc.prems by simp
  have lenM: "length m = r" using M by (simp add: rect_def)
  have rD: "rect r c ?D"
    using M kr f by (auto simp: rect_def dest: in_set_takeD in_set_dropD)
  have Dk: "?D ! k = m ! k" using kr lenM by (simp add: prefix_nth)
  have fin: "?D[k := f (m ! k)] = map f (take (Suc k) m) @ drop (Suc k) m"
    using kr lenM by (simp add: prefix_update)
  from Suc.IH kr show ?case
    by (simp add: step[OF kr rD Dk] fin del: list_update.simps)
qed

lemma softmax_rect:
  assumes M: "rect r c m" and r: "0 < r"
  shows "softmax ops m = Inr (softmax_rows ops m)"
proof -
  define body where "body = (\<lambda>i m.
          let sum_exp = f_lit ops 0;
              max_val = softmax_max_val ops (m ! i)
          in
          bind_err
            (for_loop c (\<lambda>j (m, sum_exp).
               bind_err (elem m i j) (\<lambda>x.
               bind_err (store m i j (f_exp ops (f_sub ops x max_val))) (\<lambda>m.
               bind_err (elem m i j) (\<lambda>y.
                 Inr (m, f_add ops sum_exp y)))))
              (m, sum_exp))
            (\<lambda>(m, sum_exp).
               for_loop c (\<lambda>j m.
                 bind_err (elem m i j) (\<lambda>x. store m i j (f_div ops x sum_exp)))
                 m))"
  have M0: "m \<noteq> []" "length m = r" "length (m ! 0) = c"
    using M r by (auto simp: rect_def)
  have step: "body i D = Inr (D[i := softmax_row ops (m ! i)])"
    if i: "i < r" and D: "rect r c D" and Di: "D ! i = m ! i" for i D
  proof -
    let ?es = "map (\<lambda>x. f_exp ops (f_sub ops x (softmax_max_val ops (m ! i)))) (m ! i)"
    have len: "length (m ! i) = c" using M i by (simp add: rect_nth)
    have rE: "rect r c (D[i := ?es])"
      using D len by (intro rect_update) simp_all
    have Ei: "D[i := ?es] ! i = ?es" using D i by (simp add: rect_def)
    show ?thesis
      unfolding body_def
      by (simp add: Let_def exp_sum_loop[OF D i order_refl] Di len
          row_map_loop[OF rE i order_refl] Ei softmax_row_def)
  qed
  have "for_loop r body m = Inr (map (softmax_row ops) (take r m) @ drop r m)"
  proof (rule for_loop_rowwise[where r = r and c = c])
    show "body i D = Inr (D[i := softmax_row ops (m ! i)])"
      if "i < r" "rect r c D" "D ! i = m ! i" for i D
      using that by (rule step)
    show "rect r c m" by fact
    show "length (softmax_row ops row) = length row" for row by simp
    show "r \<le> r" by simp
  qed
  then show ?thesis
    using M0 by (simp add: softmax_def row0_size_def softmax_rows_def body_def)
qed

lemma softmax_rows_rect: "rect r c m \<Longrightarrow> rect r c (softmax_rows ops m)"
  by (auto simp: rect_def softmax_rows_def)

lemma valid_rect: "valid_matrix m \<Longrightarrow> rect (rows m) (cols m) m"
  by (simp add: valid_matrix_def)

lemma valid_pos: "valid_matrix m \<Longrightarrow> 0 < rows m \<and> 0 < cols m"
  by (simp add: valid_matrix_def)

lemma rect_dims: "rect r c m \<Longrightarrow> 0 < r \<Longrightarrow> rows m = r \<and> cols m = c"
  by (auto simp: rect_def rows_def cols_def)

lemma spec_scale_rect: "rect r c m \<Longrightarrow> rect r c (spec_scale ops d m)"
  by (auto simp: rect_def spec_scale_def)

lemma scale_loop:
  assumes M: "rect r c m" and r: "0 < r"
  shows "for_loop (length m) (\<lambda>i scores.
            for_loop (length (scores ! 0)) (\<lambda>j scores.
              bind_err (elem scores i j) (\<lambda>x. store scores i j (f_div ops x scale)))
              scores) m
         = Inr (map (map (\<lambda>x. f_div ops x scale)) m)"
proof -
  have lenM: "length m = r" using M by (simp add: rect_def)
  have "for_loop r (\<lambda>i scores.
            for_loop (length (scores ! 0)) (\<lambda>j scores.
              bind_err (elem scores i j) (\<lambda>x. store scores i j (f_div ops x scale)))
              scores) m
        = Inr (map (map (\<lambda>x. f_div ops x scale)) (take r m) @ drop r m)"
  proof (rule for_loop_rowwise[where r = r and c = c])
    fix i D
    assume i: "i < r" and D: "rect r c D" and Di: "D ! i = m ! i"
    have D0: "length (D ! 0) = c" using D r by (simp add: rect_nth)
    have len: "length (m ! i) = c" using M i by (simp add: rect_nth)
    show "for_loop (length (D ! 0)) (\<lambda>j scores.
              bind_err (elem scores i j) (\<lambda>x. store scores i j (f_div ops x scale))) D
          = Inr (D[i := map (\<lambda>x. f_div ops x scale) (m ! i)])"
      by (simp add: D0 row_map_loop[OF D i order_refl] Di len)
  qed (use M in simp_all)
  then show ?thesis by (simp add: lenM)
qed

lemma matmul_mismatch:
  "A \<noteq> [] \<Longrightarrow> B \<noteq> [] \<Longrightarrow> length (A ! 0) \<noteq> length B \<Longrightarrow> matmul ops A B = Inl DimensionMismatch"
  by (simp add: matmul_def row0_size_def)

lemma attention_steps:
  assumes Q: "rect q d Q" and K: "rect k d K" and q: "0 < q" and d: "0 < d" and k: "0 < k"
  shows "attention ops Q K V
           = matmul ops (softmax_rows ops (spec_scale ops (cols Q) (spec_multiply ops Q (spec_transpose K)))) V"
    and "rect q k (softmax_rows ops (spec_scale ops (cols Q) (spec_multiply ops Q (spec_transpose K))))"
proof -
  let ?KT = "spec_transpose K"
  let ?S = "spec_multiply ops Q ?KT"
  let ?S' = "spec_scale ops d ?S"
  let ?P = "softmax_rows ops ?S'"
  have dK: "rows K = k" "cols K = d" using rect_dims[OF K k] by simp_all
  have dQ: "rows Q = q" "cols Q = d" using rect_dims[OF Q q] by simp_all
  have t: "transposeM ops K = Inr ?KT" using K k by (rule transposeM_rect)
  have rKT: "rect d k ?KT" using spec_transpose_rect[of K] by (simp add: dK)
  have dKT: "rows ?KT = d" "cols ?KT = k" using rect_dims[OF rKT d] by simp_all
  have m1: "matmul ops Q ?KT = Inr ?S" using Q rKT q d by (rule matmul_rect)
  have rS: "rect q k ?S" using spec_multiply_rect[of Q ?KT ops] by (simp add: dQ dKT)
  have Q0: "row0_size Q = Inr d" using Q q by (auto simp: row0_size_def rect_def)
  have sc: "for_loop (length ?S) (\<lambda>i scores.
            for_loop (length (scores ! 0)) (\<lambda>j scores.
              bind_err (elem scores i j) (\<lambda>x. store scores i j (f_div ops x (f_sqrt ops (f_conv ops (int d))))))
              scores) ?S = Inr ?S'"
    unfolding spec_scale_def using rS q by (rule scale_loop)
  have rS': "rect q k ?S'" using rS by (rule spec_scale_rect)
  have sm: "softmax ops ?S' = Inr ?P" using rS' q by (rule softmax_rect)
  show "attention ops Q K V
           = matmul ops (softmax_rows ops (spec_scale ops (cols Q) (spec_multiply ops Q (spec_transpose K)))) V"
    by (simp add: attention_def t m1 Q0 Let_def sc sm dQ)
  show "rect q k (softmax_rows ops (spec_scale ops (cols Q) (spec_multiply ops Q (spec_transpose K))))"
    using rS' by (simp add: dQ softmax_rows_rect)
qed

lemma attention_rect:
  assumes Q: "rect q d Q" and K: "rect k d K" and V: "rect k v V"
    and q: "0 < q" and d: "0 < d" and k: "0 < k"
  shows "attention ops Q K V = Inr (spec_attention ops Q K V)"
  using matmul_rect[OF attention_steps(2)[OF Q K q d k] V q k]
  by (simp add: attention_steps(1)[OF Q K q d k] spec_attention_def)

lemma attention_mismatch:
  assumes Q: "rect q d Q" and K: "rect k e K" and V: "rect l v V"
    and q: "0 < q" and e: "0 < e" and k: "0 < k" and l: "0 < l"
    and mis: "d \<noteq> e \<or> k \<noteq> l"
  shows "attention ops Q K V = Inl DimensionMismatch"
proof (cases "d = e")
  case False
  let ?KT = "spec_transpose K"
  have dK: "rows K = k" "cols K = e" using rect_dims[OF K k] by simp_all
  have t: "transposeM ops K = Inr ?KT" using K k by (rule transposeM_rect)
  have rKT: "rect e k ?KT" using spec_transpose_rect[of K] by (simp add: dK)
  have Q0: "Q \<noteq> []" "length (Q ! 0) = d" using Q q by (auto simp: rect_def)
  have KT0: "?KT \<noteq> []" "length ?KT = e" using rKT e by (auto simp: rect_def)
  have "matmul ops Q ?KT = Inl DimensionMismatch"
    using Q0 KT0 False by (intro matmul_mismatch) simp_all
  then show ?thesis by (simp add: attention_def t)
next
  case True
  let ?P = "softmax_rows ops (spec_scale ops (cols Q) (spec_multiply ops Q (spec_transpose K)))"
  from mis True have kl: "k \<noteq> l" by simp
  have K': "rect k d K" using K True by simp
  have d: "0 < d" using e True by simp
  have rP: "rect q k ?P" using Q K' q d k by (rule attention_steps(2))
  have P0: "?P \<noteq> []" "length (?P ! 0) = k" using rP q by (auto simp: rect_def)
  have V0: "V \<noteq> []" "length V = l" using V l by (auto simp: rect_def)
  have "matmul ops ?P V = Inl DimensionMismatch"
    using P0 V0 kl by (intro matmul_mismatch) simp_all
  then show ?thesis
    by (simp add: attention_steps(1)[OF Q K' q d k])
qed

lemma spec_attention_rect: "rect (rows Q) (cols V) (spec_attention ops Q K V)"
proof -
  have "rows (softmax_rows ops (spec_scale ops (cols Q) (spec_multiply ops Q (spec_transpose K)))) = rows Q"
    by (simp add: rows_def softmax_rows_def spec_scale_def spec_multiply_def)
  then show ?thesis
    using spec_multiply_rect[of "softmax_rows ops (spec_scale ops (cols Q) (spec_multiply ops Q (spec_transpose K)))" V ops]
    by (simp add: spec_attention_def)
qed

text \<open>In exact arithmetic \<open>sigma\<close> is the sum of the terms.\<close>

lemma sigma_exact: "sigma exact_arith n f = (\<Sum>k<n. f k)"
proof -
  have "foldl (\<lambda>acc k. acc + f k) a [0..<n] = a + (\<Sum>k<n. f k)" for a :: real
    by (induction n) simp_all
  then show ?thesis
    by (simp add: sigma_def exact_arith_def rounded_arith_def)
qed

section \<open>The kernels\<close>

text \<open>
  Claim C3. For all non-empty rectangular matrices \<open>A\<close> and \<open>B\<close> with as many columns in
  \<open>A\<close> as rows in \<open>B\<close>, \<^verbatim>\<open>matmul\<close> returns a matrix \<open>C\<close> with the rows of \<open>A\<close> and the
  columns of \<open>B\<close>, and \<open>C[i][j] = \<Sigma>\<^sub>k A[i][k] \<cdot> B[k][j]\<close> for every valid \<open>i\<close> and \<open>j\<close>, the
  sum being accumulated in single precision from \<open>k = 0\<close> upwards. This holds for every
  interpretation of the arithmetic.
\<close>

theorem matmul_correct:
  assumes "valid_matrix A" and "valid_matrix B" and "cols A = rows B"
  shows "matmul ops A B = Inr (spec_multiply ops A B)
       \<and> rows (spec_multiply ops A B) = rows A
       \<and> (\<forall>i<rows A. length (spec_multiply ops A B ! i) = cols B
            \<and> (\<forall>j<cols B. spec_multiply ops A B ! i ! j
                  = sigma ops (cols A) (\<lambda>k. f_mul ops (A ! i ! k) (B ! k ! j))))"
proof -
  have A: "rect (rows A) (cols A) A" using assms(1) by (rule valid_rect)
  have B: "rect (cols A) (cols B) B" using valid_rect[OF assms(2)] assms(3) by simp
  have pos: "0 < rows A" "0 < cols A" using assms(1) by (simp_all add: valid_pos)
  have "matmul ops A B = Inr (spec_multiply ops A B)"
    using A B pos by (rule matmul_rect)
  moreover have "rows (spec_multiply ops A B) = rows A"
    by (simp add: spec_multiply_def rows_def)
  moreover have "\<forall>i<rows A. length (spec_multiply ops A B ! i) = cols B
            \<and> (\<forall>j<cols B. spec_multiply ops A B ! i ! j
                  = sigma ops (cols A) (\<lambda>k. f_mul ops (A ! i ! k) (B ! k ! j)))"
    by (simp add: spec_multiply_def)
  ultimately show ?thesis by simp
qed

theorem matmul_correct_witness:
  "valid_matrix [[1, 2], [3, 4 :: real]] \<and> valid_matrix [[5], [6 :: real]]
   \<and> cols [[1, 2], [3, 4 :: real]] = rows [[5], [6 :: real]]
   \<and> matmul exact_arith [[1, 2], [3, 4]] [[5], [6]] = Inr [[17], [39]]"
  using matmul_correct[of "[[1, 2], [3, 4 :: real]]" "[[5], [6 :: real]]" exact_arith]
  by (simp add: valid_matrix_def rect_def rows_def cols_def INT_MAX_def spec_multiply_def sigma_def
      exact_arith_def rounded_arith_def upt_rec_numeral)

text \<open>
  On valid matrices with \<open>cols Q = cols K\<close> and \<open>rows K = rows V\<close>, \<^verbatim>\<open>attention\<close> is the
  composition of the kernels as the source has them: the product \<open>Q \<times> transpose(K)\<close>,
  every element divided by \<open>sqrt(d_k)\<close>, the softmax kernel with the value \<open>max_val\<close> that
  its search returns, and the product with \<open>V\<close>. The output has \<open>rows Q\<close> rows of
  \<open>cols V\<close> elements each.
\<close>

lemma attention_composition:
  assumes "valid_matrix Q" and "valid_matrix K" and "valid_matrix V"
    and "cols Q = cols K" and "rows K = rows V"
  shows "attention ops Q K V = Inr (spec_attention ops Q K V)
       \<and> softmax ops (spec_scale ops (cols Q) (spec_multiply ops Q (spec_transpose K)))
           = Inr (softmax_rows ops (spec_scale ops (cols Q) (spec_multiply ops Q (spec_transpose K))))
       \<and> rows (spec_attention ops Q K V) = rows Q
       \<and> (\<forall>row \<in> set (spec_attention ops Q K V). length row = cols V)"
proof -
  have Q: "rect (rows Q) (cols Q) Q" using assms(1) by (rule valid_rect)
  have K: "rect (rows K) (cols Q) K" using valid_rect[OF assms(2)] assms(4) by simp
  have V: "rect (rows K) (cols V) V" using valid_rect[OF assms(3)] assms(5) by simp
  have pos: "0 < rows Q" "0 < cols Q" "0 < rows K"
    using assms(1,2) by (simp_all add: valid_pos)
  have a: "attention ops Q K V = Inr (spec_attention ops Q K V)"
    using Q K V pos by (rule attention_rect)
  have rT: "rect (cols Q) (rows K) (spec_transpose K)"
    using spec_transpose_rect[of K] assms(4) by simp
  have "rect (rows Q) (rows K) (spec_multiply ops Q (spec_transpose K))"
    using spec_multiply_rect[of Q "spec_transpose K" ops] rect_dims[OF rT pos(2)] by simp
  then have "rect (rows Q) (rows K) (spec_scale ops (cols Q) (spec_multiply ops Q (spec_transpose K)))"
    by (rule spec_scale_rect)
  then have s: "softmax ops (spec_scale ops (cols Q) (spec_multiply ops Q (spec_transpose K)))
           = Inr (softmax_rows ops (spec_scale ops (cols Q) (spec_multiply ops Q (spec_transpose K))))"
    using pos(1) by (rule softmax_rect)
  have r: "rect (rows Q) (cols V) (spec_attention ops Q K V)"
    by (rule spec_attention_rect)
  from a s r pos(1) show ?thesis
    by (simp add: rect_def rows_def)
qed

lemma attention_composition_example:
  "valid_matrix [[1 :: real]] \<and> valid_matrix [[1 :: real]] \<and> valid_matrix [[2 :: real]]
   \<and> cols [[1 :: real]] = cols [[1 :: real]] \<and> rows [[1 :: real]] = rows [[2 :: real]]
   \<and> attention exact_arith [[1]] [[1]] [[2]] = Inr [[2]]"
  using attention_composition[of "[[1 :: real]]" "[[1 :: real]]" "[[2 :: real]]" exact_arith]
  by (simp add: valid_matrix_def rect_def rows_def cols_def INT_MAX_def spec_attention_def
      spec_multiply_def spec_transpose_def spec_scale_def softmax_rows_def softmax_row_def
      softmax_max_val_def sigma_def exact_arith_def rounded_arith_def)

text \<open>
  Claim C1 says that \<^verbatim>\<open>attention\<close> returns
  \<open>softmax((Q \<times> transpose(K)) / sqrt(d_k)) \<times> V\<close>, of shape \<open>rows Q \<times> cols V\<close>. On matrices
  of one cell, for every interpretation of the arithmetic, the score is
  \<open>s = (0.0f + q \<cdot> k) / sqrt(1)\<close>, the value subtracted from it is the larger of \<open>s\<close> and
  \<^verbatim>\<open>-1e9\<close>, and the output is \<open>0.0f + p \<cdot> v\<close> with \<open>p = e / (0.0f + e)\<close> and
  \<open>e = exp(s - max_val)\<close>. The softmax of a row of one element is \<open>[1.0]\<close>, so the claim
  promises \<open>v\<close>, and this is what exact arithmetic gives. At \<open>q = 1e5\<close>, \<open>k = -1e5\<close>,
  \<open>v = 1\<close> the score is \<open>-1e10\<close> and the search returns \<open>-1e9\<close>, not the maximum \<open>-1e10\<close> of
  the row; in single precision \<open>e = exp(-9e9)\<close> underflows to \<^verbatim>\<open>0.0f\<close>, \<open>p\<close> is
  \<open>0.0f / 0.0f\<close>, and the output is NaN instead of 1.
\<close>

theorem attention_single_cell:
  "attention ops [[q]] [[k]] [[v]]
     = (let s = f_div ops (f_add ops (f_lit ops 0) (f_mul ops q k)) (f_sqrt ops (f_conv ops 1));
            max_val = (if f_gt ops s (f_lit ops (- 1000000000)) then s
                       else f_lit ops (- 1000000000));
            e = f_exp ops (f_sub ops s max_val);
            p = f_div ops e (f_add ops (f_lit ops 0) e)
        in Inr [[f_add ops (f_lit ops 0) (f_mul ops p v)]])
   \<and> matmul exact_arith [[100000]] [[- 100000]] = Inr [[- 10000000000]]
   \<and> softmax_max_val exact_arith [- 10000000000] = - 1000000000
   \<and> Max (set [- 10000000000 :: real]) = - 10000000000
   \<and> attention exact_arith [[100000]] [[- 100000]] [[1]] = Inr [[1]]"
proof -
  have r: "rect 1 1 [[x]]" for x :: 'b by (simp add: rect_def)
  have a: "attention ops' [[q']] [[k']] [[v']] = Inr (spec_attention ops' [[q']] [[k']] [[v']])"
    for ops' :: "'b arith" and q' k' v'
    using r r r by (rule attention_rect) simp_all
  have s1: "attention ops [[q]] [[k]] [[v]]
     = (let s = f_div ops (f_add ops (f_lit ops 0) (f_mul ops q k)) (f_sqrt ops (f_conv ops 1));
            max_val = (if f_gt ops s (f_lit ops (- 1000000000)) then s
                       else f_lit ops (- 1000000000));
            e = f_exp ops (f_sub ops s max_val);
            p = f_div ops e (f_add ops (f_lit ops 0) e)
        in Inr [[f_add ops (f_lit ops 0) (f_mul ops p v)]])"
    by (simp add: a spec_attention_def spec_multiply_def spec_transpose_def spec_scale_def
        softmax_rows_def softmax_row_def softmax_max_val_def sigma_def rows_def cols_def Let_def)
  have m: "matmul exact_arith [[100000]] [[- 100000]] = Inr [[- 10000000000]]"
    using matmul_rect[OF r r, of exact_arith 100000 "- 100000"]
    by (simp add: spec_multiply_def sigma_def rows_def cols_def exact_arith_def rounded_arith_def)
  have mx: "softmax_max_val exact_arith [- 10000000000] = - 1000000000"
    by (simp add: softmax_max_val_def exact_arith_def rounded_arith_def)
  have ex: "attention exact_arith [[100000]] [[- 100000]] [[1]] = Inr [[1]]"
    by (simp add: a spec_attention_def spec_multiply_def spec_transpose_def spec_scale_def
        softmax_rows_def softmax_row_def softmax_max_val_def sigma_def rows_def cols_def Let_def
        exact_arith_def rounded_arith_def)
  have "Max (set [- 10000000000 :: real]) = - 10000000000" by simp
  with s1 m mx ex show ?thesis by (intro conjI)
qed



text \<open>
  Claim C6. On valid matrices, \<^verbatim>\<open>matmul\<close> fails with the dimension mismatch exactly when
  \<open>cols A \<noteq> rows B\<close>, and \<^verbatim>\<open>attention\<close> fails with the same failure exactly when
  \<open>cols Q \<noteq> cols K\<close> or \<open>rows K \<noteq> rows V\<close>. A matrix is returned exactly when the
  dimensions agree, so a failing call returns no matrix at all.
\<close>

theorem dimension_mismatch_iff:
  assumes "valid_matrix A" and "valid_matrix B"
    and "valid_matrix Q" and "valid_matrix K" and "valid_matrix V"
  shows "(matmul ops A B = Inl DimensionMismatch \<longleftrightarrow> cols A \<noteq> rows B)
       \<and> (attention ops Q K V = Inl DimensionMismatch \<longleftrightarrow> cols Q \<noteq> cols K \<or> rows K \<noteq> rows V)
       \<and> ((\<exists>C. matmul ops A B = Inr C) \<longleftrightarrow> cols A = rows B)
       \<and> ((\<exists>C. attention ops Q K V = Inr C) \<longleftrightarrow> cols Q = cols K \<and> rows K = rows V)"
proof -
  have A: "rect (rows A) (cols A) A" using assms(1) by (rule valid_rect)
  have B: "rect (rows B) (cols B) B" using assms(2) by (rule valid_rect)
  have Q: "rect (rows Q) (cols Q) Q" using assms(3) by (rule valid_rect)
  have K: "rect (rows K) (cols K) K" using assms(4) by (rule valid_rect)
  have V: "rect (rows V) (cols V) V" using assms(5) by (rule valid_rect)
  have pos: "0 < rows A" "0 < cols A" "0 < rows B" "0 < rows Q" "0 < cols Q"
    "0 < rows K" "0 < cols K" "0 < rows V"
    using assms by (simp_all add: valid_pos)
  have m_ok: "matmul ops A B = Inr (spec_multiply ops A B)" if "cols A = rows B"
    using A B pos(1,2) that by (auto intro: matmul_rect)
  have m_bad: "matmul ops A B = Inl DimensionMismatch" if "cols A \<noteq> rows B"
    using that pos(1,3) by (intro matmul_mismatch) (simp_all add: rows_def cols_def)
  have a_ok: "attention ops Q K V = Inr (spec_attention ops Q K V)"
    if "cols Q = cols K" "rows K = rows V"
    using Q K V pos(4,5,6) that by (auto intro: attention_rect)
  have a_bad: "attention ops Q K V = Inl DimensionMismatch"
    if "cols Q \<noteq> cols K \<or> rows K \<noteq> rows V"
    using Q K V pos(4) pos(7) pos(6) pos(8) that by (rule attention_mismatch)
  have 1: "matmul ops A B = Inl DimensionMismatch \<longleftrightarrow> cols A \<noteq> rows B"
    using m_ok m_bad by (cases "cols A = rows B") simp_all
  have 2: "attention ops Q K V = Inl DimensionMismatch \<longleftrightarrow> cols Q \<noteq> cols K \<or> rows K \<noteq> rows V"
    using a_ok a_bad by (cases "cols Q = cols K \<and> rows K = rows V") auto
  have 3: "(\<exists>C. matmul ops A B = Inr C) \<longleftrightarrow> cols A = rows B"
    using m_ok m_bad by (cases "cols A = rows B") simp_all
  have 4: "(\<exists>C. attention ops Q K V = Inr C) \<longleftrightarrow> cols Q = cols K \<and> rows K = rows V"
    using a_ok a_bad by (cases "cols Q = cols K \<and> rows K = rows V") auto
  from 1 2 3 4 show ?thesis by simp
qed

theorem dimension_mismatch_iff_witness:
  "valid_matrix [[1, 2 :: real]] \<and> valid_matrix [[1 :: real]] \<and> valid_matrix [[2 :: real]]
   \<and> valid_matrix [[3 :: real], [4]]
   \<and> matmul exact_arith [[1, 2]] [[1]] = Inl DimensionMismatch
   \<and> attention exact_arith [[1]] [[1]] [[3], [4]] = Inl DimensionMismatch
   \<and> attention exact_arith [[1, 2]] [[1]] [[2]] = Inl DimensionMismatch
   \<and> (\<exists>C. matmul exact_arith [[1]] [[2]] = Inr C)
   \<and> (\<exists>C. attention exact_arith [[1]] [[1]] [[2]] = Inr C)"
  using dimension_mismatch_iff[of "[[1, 2 :: real]]" "[[1 :: real]]" "[[1 :: real]]" "[[1 :: real]]"
      "[[3 :: real], [4]]" exact_arith]
    dimension_mismatch_iff[of "[[1 :: real]]" "[[2 :: real]]" "[[1, 2 :: real]]" "[[1 :: real]]"
      "[[2 :: real]]" exact_arith]
    dimension_mismatch_iff[of "[[1 :: real]]" "[[2 :: real]]" "[[1 :: real]]" "[[1 :: real]]"
      "[[2 :: real]]" exact_arith]
  by (simp add: valid_matrix_def rect_def rows_def cols_def INT_MAX_def)

section \<open>The loader\<close>

lemma length_padded_prefix [simp]: "length (padded_prefix n bs) = n"
  by (simp add: padded_prefix_def)

lemma padded_prefix_step:
  "padded_prefix a bs @ padded_prefix k (drop a bs) = padded_prefix (a + k) bs"
proof (cases "a \<le> length bs")
  case True
  then show ?thesis
    by (simp add: padded_prefix_def take_add)
next
  case False
  then show ?thesis
    by (simp add: padded_prefix_def replicate_add[symmetric])
qed

lemma concat_floats_of_bytes: "4 dvd length bs \<Longrightarrow> concat (floats_of_bytes bs) = bs"
proof (induction bs rule: floats_of_bytes.induct)
  case (1 a b c d rest)
  from "1.prems" have "4 dvd length rest" by simp presburger
  with "1.IH" show ?case by simp
qed (auto simp: numeral_2_eq_2[symmetric] numeral_3_eq_3[symmetric])

lemma length_floats_of_bytes: "length (floats_of_bytes bs) = length bs div 4"
  by (induction bs rule: floats_of_bytes.induct) auto

lemma cells_floats_of_bytes: "cell \<in> set (floats_of_bytes bs) \<Longrightarrow> length cell = 4"
  by (induction bs rule: floats_of_bytes.induct) auto

lemma concat_zero_row: "concat (replicate c zero_f32) = replicate (4 * c) 0"
  by (induction c) (simp_all add: zero_f32_def eval_nat_numeral)

lemma fread_zero_row:
  "fread (replicate (4 * c) 0) 4 c f
     = (padded_prefix (4 * c) (unread f), f\<lparr>unread := drop (4 * c) (unread f)\<rparr>)"
  by (auto simp: fread_def Let_def padded_prefix_def min_def)

lemma loadMatrix_loop:
  assumes k: "k \<le> r"
  shows "for_loop k (\<lambda>i (f, m).
          if length (m ! i) < c then Inl OutOfBounds
          else
            let (bytes, f) = fread (concat (m ! i)) 4 c f
            in Inr (f, m[i := floats_of_bytes bytes]))
          (f, alloc r c zero_f32)
        = Inr (f\<lparr>unread := drop (4 * c * k) (unread f)\<rparr>,
               loaded_rows c (unread f) k @ drop k (alloc r c zero_f32))"
  using k
proof (induction k)
  case 0
  then show ?case by (simp add: loaded_rows_def)
next
  case (Suc k)
  let ?m = "alloc r c zero_f32"
  let ?D = "loaded_rows c (unread f) k @ drop k ?m"
  have kr: "k < r" using Suc.prems by simp
  have lenm: "length ?m = r" by (simp add: alloc_def)
  have lenL: "length (loaded_rows c (unread f) k) = k" by (simp add: loaded_rows_def)
  have Dk: "?D ! k = replicate c zero_f32"
    using kr lenm lenL by (simp add: nth_at_split) (simp add: alloc_def)
  have upd: "?D[k := row] = loaded_rows c (unread f) k @ row # drop (Suc k) ?m" for row
    using kr lenm lenL by (simp add: update_at_split)
  have next_row: "loaded_rows c (unread f) k
                    @ floats_of_bytes (padded_prefix (4 * c) (drop (4 * c * k) (unread f))) # rest
                  = loaded_rows c (unread f) (Suc k) @ rest" for rest
    by (simp add: loaded_rows_def)
  have pos: "drop (4 * c) (drop (4 * c * k) (unread f)) = drop (4 * c * Suc k) (unread f)"
    by (simp add: add.commute)
  from Suc.IH kr show ?case
    by (simp add: Dk concat_zero_row fread_zero_row upd next_row pos
        del: drop_drop mult_Suc_right)
qed

lemma concat_loaded_rows:
  "concat (concat (loaded_rows c bs k)) = padded_prefix (4 * c * k) bs"
proof (induction k)
  case 0
  then show ?case by (simp add: loaded_rows_def padded_prefix_def)
next
  case (Suc k)
  have "concat (concat (loaded_rows c bs (Suc k)))
        = concat (concat (loaded_rows c bs k)) @ padded_prefix (4 * c) (drop (4 * c * k) bs)"
    by (simp add: loaded_rows_def concat_floats_of_bytes)
  also have "\<dots> = padded_prefix (4 * c * k + 4 * c) bs"
    by (simp only: Suc.IH padded_prefix_step)
  finally show ?case by (simp add: algebra_simps)
qed

lemma loaded_rows_rect: "rect k c (loaded_rows c bs k)"
  by (auto simp: rect_def loaded_rows_def length_floats_of_bytes)

lemma loaded_rows_cells:
  "row \<in> set (loaded_rows c bs k) \<Longrightarrow> cell \<in> set row \<Longrightarrow> length cell = 4"
  by (auto simp: loaded_rows_def dest: cells_floats_of_bytes)

lemma loadMatrix_zero:
  assumes "0 < r"
  shows "loadMatrix f (alloc r c zero_f32)
         = Inr (f\<lparr>unread := drop (4 * c * r) (unread f)\<rparr>, loaded_rows c (unread f) r)"
proof -
  have "alloc r c zero_f32 \<noteq> []" "length (alloc r c zero_f32 ! 0) = c" "length (alloc r c zero_f32) = r"
    using assms by (simp_all add: alloc_def)
  then show ?thesis
    by (simp add: loadMatrix_def row0_size_def loadMatrix_loop[OF order_refl])
qed

lemma TransformerBlock_init_loaded:
  assumes "0 < d_model"
  shows "TransformerBlock_init d_model f
         = Inr (f\<lparr>unread := drop (16 * nat d_model * nat d_model) (unread f)\<rparr>,
                \<lparr>W_q = loaded_rows (nat d_model) (unread f) (nat d_model),
                 W_k = loaded_rows (nat d_model)
                         (drop (4 * nat d_model * nat d_model) (unread f)) (nat d_model),
                 W_v = loaded_rows (nat d_model)
                         (drop (8 * nat d_model * nat d_model) (unread f)) (nat d_model),
                 W_out = loaded_rows (nat d_model)
                         (drop (12 * nat d_model * nat d_model) (unread f)) (nat d_model)\<rparr>)"
proof -
  have n: "0 < nat d_model" and d: "\<not> d_model < 0" using assms by simp_all
  show ?thesis
    by (simp add: TransformerBlock_init_def d Let_def loadMatrix_zero[OF n] algebra_simps)
qed

lemma nth_cells:
  "\<forall>cell \<in> set cells. length cell = 4 \<Longrightarrow> c < length cells
     \<Longrightarrow> take 4 (drop (4 * c) (concat cells)) = cells ! c"
proof (induction cells arbitrary: c)
  case Nil
  then show ?case by simp
next
  case (Cons x cells)
  show ?case
  proof (cases c)
    case 0
    with Cons.prems show ?thesis by simp
  next
    case (Suc c')
    with Cons.prems have "take 4 (drop (4 * c') (concat cells)) = cells ! c'"
      by (intro Cons.IH) simp_all
    with Cons.prems Suc show ?thesis by simp
  qed
qed

lemma length_concat_rect: "rect r c m \<Longrightarrow> length (concat m) = r * c"
  by (induction m arbitrary: r) (auto simp: rect_def)

lemma block_bytes_loaded:
  "block_bytes \<lparr>W_q = loaded_rows n U n,
               W_k = loaded_rows n (drop (4 * n * n) U) n,
               W_v = loaded_rows n (drop (8 * n * n) U) n,
               W_out = loaded_rows n (drop (12 * n * n) U) n\<rparr>
   = padded_prefix (16 * n * n) U"
proof -
  let ?N = "4 * n * n"
  have e8: "8 * n * n = ?N + ?N" and e12: "12 * n * n = ?N + ?N + ?N" and e16: "16 * n * n = ?N + ?N + ?N + ?N"
    by simp_all
  have "padded_prefix (?N + ?N + ?N + ?N) U
        = padded_prefix ?N U @ padded_prefix ?N (drop ?N U)
          @ padded_prefix ?N (drop (?N + ?N) U) @ padded_prefix ?N (drop (?N + ?N + ?N) U)"
    by (simp only: padded_prefix_step[symmetric] append_assoc)
  then show ?thesis
    by (simp only: block_bytes_def block_cells_def concat_append concat_loaded_rows e8 e12 e16
        TransformerBlock.simps)
qed

lemma block_cells_loaded:
  fixes n U
  defines "blk \<equiv> \<lparr>W_q = loaded_rows n U n,
               W_k = loaded_rows n (drop (4 * n * n) U) n,
               W_v = loaded_rows n (drop (8 * n * n) U) n,
               W_out = loaded_rows n (drop (12 * n * n) U) n\<rparr>"
  shows "length (block_cells blk) = 4 * n * n"
    and "\<forall>cell \<in> set (block_cells blk). length cell = 4"
proof -
  show "length (block_cells blk) = 4 * n * n"
    by (simp add: blk_def block_cells_def length_concat_rect[OF loaded_rows_rect])
  show "\<forall>cell \<in> set (block_cells blk). length cell = 4"
    by (auto simp: blk_def block_cells_def dest: loaded_rows_cells)
qed

lemma fill_cell:
  assumes c: "4 * c + 4 \<le> N" and beyond: "length U \<le> 4 * c"
  shows "take 4 (drop (4 * c) (padded_prefix N U)) = zero_f32"
proof -
  have "drop (4 * c) (padded_prefix N U) = replicate (N - 4 * c) 0"
    using beyond c by (simp add: padded_prefix_def)
  moreover have "take 4 (replicate (N - 4 * c) (0 :: byte)) = replicate 4 0"
    using c by (simp add: min_def)
  moreover have "replicate 4 (0 :: byte) = zero_f32"
    by (simp add: zero_f32_def eval_nat_numeral)
  ultimately show ?thesis by simp
qed

text \<open>
  Claim C8. When the stream ends before all \<open>4 \<cdot> d_model\<^sup>2\<close> floats have been read, the
  constructor reports no failure: it returns the block with the stream at its end; the
  storage of the four matrices, in the order \<open>W_q\<close>, \<open>W_k\<close>, \<open>W_v\<close>, \<open>W_out\<close>, holds the
  bytes that were available and nothing else from the stream, and every cell that lies
  beyond them still holds the value \<^verbatim>\<open>0.0f\<close> it was allocated with.
\<close>

theorem load_weights_silent_partial_read:
  assumes "0 < d_model" and "length (unread f) < 16 * nat d_model * nat d_model"
  shows "\<exists>blk. TransformerBlock_init d_model f = Inr (f\<lparr>unread := []\<rparr>, blk)
           \<and> block_bytes blk
               = unread f @ replicate (16 * nat d_model * nat d_model - length (unread f)) 0
           \<and> length (block_cells blk) = 4 * nat d_model * nat d_model
           \<and> (\<forall>c < 4 * nat d_model * nat d_model.
                 length (unread f) \<le> 4 * c \<longrightarrow> block_cells blk ! c = zero_f32)"
proof -
  let ?n = "nat d_model" and ?U = "unread f"
  let ?blk = "\<lparr>W_q = loaded_rows ?n ?U ?n,
               W_k = loaded_rows ?n (drop (4 * ?n * ?n) ?U) ?n,
               W_v = loaded_rows ?n (drop (8 * ?n * ?n) ?U) ?n,
               W_out = loaded_rows ?n (drop (12 * ?n * ?n) ?U) ?n\<rparr>"
  have "drop (16 * ?n * ?n) ?U = []" using assms(2) by simp
  then have init: "TransformerBlock_init d_model f = Inr (f\<lparr>unread := []\<rparr>, ?blk)"
    by (simp only: TransformerBlock_init_loaded[OF assms(1)])
  have image: "block_bytes ?blk = padded_prefix (16 * ?n * ?n) ?U"
    by (rule block_bytes_loaded)
  have "padded_prefix (16 * ?n * ?n) ?U = ?U @ replicate (16 * ?n * ?n - length ?U) 0"
    using assms(2) by (simp add: padded_prefix_def)
  with image have bytes: "block_bytes ?blk = ?U @ replicate (16 * ?n * ?n - length ?U) 0"
    by simp
  have len: "length (block_cells ?blk) = 4 * ?n * ?n"
    by (rule block_cells_loaded(1))
  have four: "\<forall>cell \<in> set (block_cells ?blk). length cell = 4"
    by (rule block_cells_loaded(2))
  have fill: "block_cells ?blk ! c = zero_f32"
    if c: "c < 4 * ?n * ?n" and beyond: "length ?U \<le> 4 * c" for c
  proof -
    have "c < length (block_cells ?blk)" using c len by simp
    with four have "take 4 (drop (4 * c) (concat (block_cells ?blk))) = block_cells ?blk ! c"
      by (rule nth_cells)
    moreover have "4 * c + 4 \<le> 16 * ?n * ?n" using c by simp
    then have "take 4 (drop (4 * c) (padded_prefix (16 * ?n * ?n) ?U)) = zero_f32"
      using beyond by (rule fill_cell)
    ultimately show ?thesis
      using image by (simp only: block_bytes_def)
  qed
  from init bytes len fill show ?thesis by blast
qed

theorem load_weights_silent_partial_read_witness:
  "(0 :: int) < 1 \<and> length [1, 2, 3, 4, 5, 6 :: byte] < 16 * nat 1 * nat 1
   \<and> (\<exists>blk. TransformerBlock_init 1 \<lparr>unread = [1, 2, 3, 4, 5, 6], is_open = True\<rparr>
               = Inr (\<lparr>unread = [], is_open = True\<rparr>, blk)
            \<and> block_bytes blk = [1, 2, 3, 4, 5, 6, 0, 0, 0, 0, 0, 0, 0, 0, 0, 0]
            \<and> block_cells blk ! 2 = zero_f32 \<and> block_cells blk ! 3 = zero_f32)"
  using load_weights_silent_partial_read[of 1 "\<lparr>unread = [1, 2, 3, 4, 5, 6], is_open = True\<rparr>"]
  by (auto simp: eval_nat_numeral)

text \<open>The same run, cell by cell: six bytes for four cells.\<close>

lemma TransformerBlock_init_truncated_example:
  "TransformerBlock_init 1 \<lparr>unread = [1, 2, 3, 4, 5, 6], is_open = True\<rparr>
       = Inr (\<lparr>unread = [], is_open = True\<rparr>,
              \<lparr>W_q = [[[1, 2, 3, 4]]], W_k = [[[5, 6, 0, 0]]],
               W_v = [[[0, 0, 0, 0]]], W_out = [[[0, 0, 0, 0]]]\<rparr>)"
  by (simp add: TransformerBlock_init_def alloc_def loadMatrix_def row0_size_def zero_f32_def
        fread_def Let_def)

section \<open>The driver\<close>

lemma length_bytes_of_uint [simp]: "length (bytes_of_uint w) = 4"
  by (simp add: bytes_of_uint_def)

lemma fread_int_available:
  "4 \<le> length (unread f)
     \<Longrightarrow> fread_int x f = (uint_of_bytes (take 4 (unread f)), f\<lparr>unread := drop 4 (unread f)\<rparr>)"
  by (simp add: fread_int_def fread_def Let_def)

text \<open>
  Claim C7. For a stream that holds a first 4-byte value, reading the header fails with
  \<open>InvalidFormat\<close> exactly when that value differs from \<^verbatim>\<open>0xFEEDBEEF\<close>. On the failure
  only these four bytes have been consumed, and \<^verbatim>\<open>main\<close> ends with the stream in that
  state: neither the layer count nor \<open>d_model\<close> nor any weight byte is read. When the
  value is \<^verbatim>\<open>0xFEEDBEEF\<close>, the next two 4-byte values are read as signed integers, the
  layer count first and \<open>d_model\<close> second.
\<close>

theorem read_header_magic:
  assumes "4 \<le> length (unread f)"
  shows "(snd (read_header u f) = Inl InvalidFormat
            \<longleftrightarrow> uint_of_bytes (take 4 (unread f)) \<noteq> 0xFEEDBEEF)
       \<and> (uint_of_bytes (take 4 (unread f)) \<noteq> 0xFEEDBEEF
            \<longrightarrow> read_header u f = (f\<lparr>unread := drop 4 (unread f)\<rparr>, Inl InvalidFormat)
              \<and> main ops (Some (unread f)) u
                  = \<lparr>failure = Some InvalidFormat,
                     stream = Some \<lparr>unread = drop 4 (unread f), is_open = True\<rparr>,
                     final_output = None\<rparr>)
       \<and> (uint_of_bytes (take 4 (unread f)) = 0xFEEDBEEF \<and> 12 \<le> length (unread f)
            \<longrightarrow> read_header u f
                  = (f\<lparr>unread := drop 12 (unread f)\<rparr>,
                     Inr (sint (uint_of_bytes (take 4 (drop 4 (unread f)))),
                          sint (uint_of_bytes (take 4 (drop 8 (unread f)))))))"
proof -
  let ?U = "unread f"
  let ?f1 = "f\<lparr>unread := drop 4 ?U\<rparr>"
  have m: "fread_int (magic0 u) f = (uint_of_bytes (take 4 ?U), ?f1)"
    using assms by (rule fread_int_available)
  have bad: "read_header u f = (?f1, Inl InvalidFormat)"
    if "uint_of_bytes (take 4 ?U) \<noteq> 0xFEEDBEEF"
    using that by (simp add: read_header_def m)
  have good: "snd (read_header u f) \<noteq> Inl InvalidFormat"
    if "uint_of_bytes (take 4 ?U) = 0xFEEDBEEF"
    using that by (simp add: read_header_def m split: prod.splits)
  have bad_main: "main ops (Some ?U) u
        = \<lparr>failure = Some InvalidFormat,
           stream = Some \<lparr>unread = drop 4 ?U, is_open = True\<rparr>, final_output = None\<rparr>"
    if "uint_of_bytes (take 4 ?U) \<noteq> 0xFEEDBEEF"
  proof -
    let ?g = "\<lparr>unread = ?U, is_open = True\<rparr>"
    have "fread_int (magic0 u) ?g = (uint_of_bytes (take 4 ?U), ?g\<lparr>unread := drop 4 ?U\<rparr>)"
      using assms fread_int_available[of ?g "magic0 u"] by simp
    with that have "read_header u ?g = (\<lparr>unread = drop 4 ?U, is_open = True\<rparr>, Inl InvalidFormat)"
      by (simp add: read_header_def)
    then show ?thesis by (simp add: main_def fopen_def)
  qed
  have dims: "read_header u f
                  = (f\<lparr>unread := drop 12 ?U\<rparr>,
                     Inr (sint (uint_of_bytes (take 4 (drop 4 ?U))),
                          sint (uint_of_bytes (take 4 (drop 8 ?U)))))"
    if ok: "uint_of_bytes (take 4 ?U) = 0xFEEDBEEF" and len: "12 \<le> length ?U"
  proof -
    have l: "fread_int (layers0 u) ?f1
             = (uint_of_bytes (take 4 (drop 4 ?U)), f\<lparr>unread := drop 8 ?U\<rparr>)"
      using len fread_int_available[of ?f1 "layers0 u"] by simp
    have d: "fread_int (d_model0 u) (f\<lparr>unread := drop 8 ?U\<rparr>)
             = (uint_of_bytes (take 4 (drop 8 ?U)), f\<lparr>unread := drop 12 ?U\<rparr>)"
      using len fread_int_available[of "f\<lparr>unread := drop 8 ?U\<rparr>" "d_model0 u"] by simp
    show ?thesis using ok by (simp add: read_header_def m l d)
  qed
  show ?thesis
  proof (cases "uint_of_bytes (take 4 ?U) = 0xFEEDBEEF")
    case True
    with good dims show ?thesis by simp
  next
    case False
    with bad bad_main show ?thesis by simp
  qed
qed

theorem read_header_magic_witness:
  "4 \<le> length [0xEF, 0xBE, 0xAD, 0xDE, 1, 0, 0, 0 :: byte]
   \<and> read_header \<lparr>magic0 = 0, layers0 = 0, d_model0 = 0\<rparr>
         \<lparr>unread = [0xEF, 0xBE, 0xAD, 0xDE, 1, 0, 0, 0], is_open = True\<rparr>
       = (\<lparr>unread = [1, 0, 0, 0], is_open = True\<rparr>, Inl InvalidFormat)
   \<and> 12 \<le> length [0xEF, 0xBE, 0xED, 0xFE, 1, 0, 0, 0, 0xFE, 0xFF, 0xFF, 0xFF, 7 :: byte]
   \<and> read_header \<lparr>magic0 = 0, layers0 = 0, d_model0 = 0\<rparr>
         \<lparr>unread = [0xEF, 0xBE, 0xED, 0xFE, 1, 0, 0, 0, 0xFE, 0xFF, 0xFF, 0xFF, 7], is_open = True\<rparr>
       = (\<lparr>unread = [7], is_open = True\<rparr>, Inr (1, - 2))"
  using read_header_magic[of "\<lparr>unread = [0xEF, 0xBE, 0xAD, 0xDE, 1, 0, 0, 0], is_open = True\<rparr>"
      "\<lparr>magic0 = 0, layers0 = 0, d_model0 = 0\<rparr>"]
    read_header_magic[of
      "\<lparr>unread = [0xEF, 0xBE, 0xED, 0xFE, 1, 0, 0, 0, 0xFE, 0xFF, 0xFF, 0xFF, 7], is_open = True\<rparr>"
      "\<lparr>magic0 = 0, layers0 = 0, d_model0 = 0\<rparr>"]
  by (simp add: uint_of_bytes_def le_nat_def)

text \<open>
  A stream that ends before the fourth byte leaves the rest of \<^verbatim>\<open>magic\<close> as it was. On an
  empty file the comparison reads the uninitialised variable alone.
\<close>

lemma base256_digits:
  "n mod 256 + 256 * (n div 256 mod 256 + 256 * (n div 65536 mod 256 + 256 * (n div 16777216)))
     = (n :: nat)"
proof -
  have e: "n div 65536 = n div 256 div 256" "n div 16777216 = n div 256 div 256 div 256"
    by (simp_all add: div_mult2_eq[symmetric])
  show ?thesis
    by (simp only: e mod_mult_div_eq)
qed

lemma le_nat_bytes_of_uint: "le_nat (bytes_of_uint w) = unat w"
proof -
  have "unat w < 2 ^ 32" using unsigned_less[of w] by simp
  then have top: "unat w div 16777216 mod 256 = unat w div 16777216"
    by simp
  have b: "unat (word_of_nat n :: byte) = n mod 256" for n
    by (simp add: unat_of_nat)
  have "le_nat (bytes_of_uint w)
        = unat w mod 256 + 256 * (unat w div 256 mod 256 + 256 * (unat w div 65536 mod 256
            + 256 * (unat w div 16777216 mod 256)))"
    by (simp add: le_nat_def bytes_of_uint_def b unsigned_ucast_eq take_bit_eq_mod del: mod_less)
  then show ?thesis
    by (simp only: top base256_digits)
qed

lemma uint_of_bytes_of_uint [simp]: "uint_of_bytes (bytes_of_uint w) = w"
  by (simp add: uint_of_bytes_def le_nat_bytes_of_uint)

lemma read_header_empty_stream:
  "snd (read_header u \<lparr>unread = [], is_open = True\<rparr>) = Inl InvalidFormat
     \<longleftrightarrow> magic0 u \<noteq> 0xFEEDBEEF"
  by (simp add: read_header_def fread_int_def fread_def Let_def split: prod.splits)

text \<open>
  Once the header and the weights have been read, \<^verbatim>\<open>main\<close> closes the stream before it
  goes on to the forward pass.
\<close>

lemma main_closes_stream_after_loading:
  assumes "read_header u \<lparr>unread = bytes, is_open = True\<rparr> = (f1, Inr (layers, d_model))"
    and "TransformerBlock_init d_model f1 = Inr (f2, layer1)"
  shows "stream (main ops (Some bytes) u) = Some (fclose f2)"
  using assms by (simp add: main_def fopen_def Let_def split: sum.splits)

text \<open>
  Claim C10 says that the stream is closed on every path that opened it, the
  invalid-magic failure included. On a file whose magic number is \<^verbatim>\<open>0xDEADBEEF\<close> the run
  ends with the failure and the stream is still open: \<^verbatim>\<open>main\<close> returns 1 without a call
  of \<^verbatim>\<open>fclose\<close>.
\<close>

theorem main_invalid_magic_leaves_stream_open:
  "main ops (Some [0xEF, 0xBE, 0xAD, 0xDE]) u
     = \<lparr>failure = Some InvalidFormat, stream = Some \<lparr>unread = [], is_open = True\<rparr>,
        final_output = None\<rparr>"
  by (simp add: main_def fopen_def read_header_def fread_int_def fread_def Let_def
      uint_of_bytes_def le_nat_def)

section \<open>The softmax kernel\<close>

text \<open>
  Where the comparison of the arithmetic is the order of the real numbers, the search
  for the maximum returns the larger of \<^verbatim>\<open>-1e9\<close> and the maximum of the row.
\<close>

lemma softmax_max_val_rounded:
  "softmax_max_val (rounded_arith rnd) row = Max (insert (rnd (- 1000000000)) (set row))"
proof -
  have "fold (\<lambda>val max_val. if val > max_val then val else max_val) row (a :: real)
        = Max (insert a (set row))" for a
  proof (induction row arbitrary: a)
    case Nil
    then show ?case by simp
  next
    case (Cons x row)
    have "(if a < x then x else a) = max x a" by (simp add: max_def)
    then have "Max (insert (if a < x then x else a) (set row)) = Max (insert a (insert x (set row)))"
      by (cases "set row = {}") (simp_all add: insert_commute max.commute max.left_commute)
    with Cons.IH show ?case by simp
  qed
  then show ?thesis
    by (simp add: softmax_max_val_def rounded_arith_def)
qed

text \<open>
  Claim C5 says that \<open>max_val\<close> is the maximum of the row, also for rows whose elements
  are all very large negative values. On the row that holds the single value \<open>-2e9\<close>
  (which is a \<^verbatim>\<open>float\<close>, as is \<open>-1e9\<close>, and the comparison of two floats is exact) the
  search starts from \<open>-1e9\<close>, finds no larger element and returns \<open>-1e9\<close>, while the
  maximum of the row is \<open>-2e9\<close>.
\<close>

theorem softmax_max_val_floor:
  "softmax_max_val ops [x]
     = (if f_gt ops x (f_lit ops (- 1000000000)) then x else f_lit ops (- 1000000000))
   \<and> softmax_max_val exact_arith [- 2000000000] = - 1000000000
   \<and> Max (set [- 2000000000 :: real]) = - 2000000000"
  by (simp add: softmax_max_val_def exact_arith_def rounded_arith_def)

text \<open>
  Claim C4 says that after \<^verbatim>\<open>softmax\<close> every row sums to 1 and every element lies
  between 0 and 1. What the kernel leaves in a matrix of one cell \<open>x\<close>, for every
  interpretation of the arithmetic: with \<open>max_val\<close> the larger of \<open>x\<close> and \<^verbatim>\<open>-1e9\<close>, the
  cell becomes \<open>e / (0.0f + e)\<close> where \<open>e = exp(x - max_val)\<close>. For \<open>x = -2e9\<close> in single
  precision \<open>max_val\<close> is \<open>-1e9\<close>, the difference is \<open>-1e9\<close>, its exponential underflows
  to \<open>0.0f\<close>, and the cell becomes \<open>0.0f / 0.0f\<close>, which is NaN.
\<close>

theorem softmax_single_cell:
  "softmax ops [[x]]
     = Inr [[f_div ops
               (f_exp ops (f_sub ops x
                  (if f_gt ops x (f_lit ops (- 1000000000)) then x else f_lit ops (- 1000000000))))
               (f_add ops (f_lit ops 0)
                  (f_exp ops (f_sub ops x
                     (if f_gt ops x (f_lit ops (- 1000000000)) then x
                      else f_lit ops (- 1000000000)))))]]"
proof -
  have "rect 1 1 [[x]]" by (simp add: rect_def)
  then have "softmax ops [[x]] = Inr (softmax_rows ops [[x]])"
    by (rule softmax_rect) simp
  then show ?thesis
    by (simp add: softmax_rows_def softmax_row_def softmax_max_val_def Let_def)
qed

text \<open>
  In exact arithmetic the kernel does normalise every non-empty row, whatever value is
  subtracted: no exponential is zero there. In single precision the sum of the
  exponentials is at least 1 when the true maximum is subtracted, because the maximal
  element contributes \<open>exp(0)\<close>, and can be \<^verbatim>\<open>0.0f\<close> when the floor \<^verbatim>\<open>-1e9\<close> is.
\<close>

lemma foldl_add_real: "foldl (+) a xs = a + sum_list xs" for a :: real
  by (induction xs arbitrary: a) simp_all

lemma sum_list_divide_real: "sum_list (map (\<lambda>e. e / s) es) = sum_list es / s" for s :: real
  by (induction es) (simp_all add: add_divide_distrib)

lemma member_le_sum_list_real:
  "\<forall>e \<in> set es. 0 < e \<Longrightarrow> x \<in> set es \<Longrightarrow> x \<le> sum_list es \<and> 0 < sum_list es" for x :: real
proof (induction es)
  case Nil
  then show ?case by simp
next
  case (Cons e es)
  have nonneg: "0 \<le> sum_list es"
    using Cons.prems(1) by (intro sum_list_nonneg) (auto intro: less_imp_le)
  show ?case
  proof (cases "x = e")
    case True
    with Cons.prems nonneg show ?thesis by simp
  next
    case False
    with Cons.prems have "x \<in> set es" by simp
    with Cons.IH Cons.prems(1) have "x \<le> sum_list es" by simp
    moreover have "0 < e" using Cons.prems(1) by simp
    ultimately show ?thesis using nonneg by simp
  qed
qed

lemma softmax_row_exact:
  assumes "row \<noteq> []"
  shows "sum_list (softmax_row exact_arith row) = 1
       \<and> (\<forall>x \<in> set (softmax_row exact_arith row). 0 < x \<and> x \<le> 1)"
proof -
  define m where "m = softmax_max_val exact_arith row"
  define es where "es = map (\<lambda>x. exp (x - m)) row"
  define s where "s = sum_list es"
  have pos: "\<forall>e \<in> set es. 0 < e" by (simp add: es_def)
  have "es \<noteq> []" using assms by (simp add: es_def)
  then obtain e0 where "e0 \<in> set es" by (cases es) auto
  with pos have s: "0 < s" unfolding s_def by (blast dest: member_le_sum_list_real)
  have row': "softmax_row exact_arith row = map (\<lambda>e. e / s) es"
    by (simp add: softmax_row_def exact_arith_def rounded_arith_def Let_def foldl_add_real
        es_def s_def m_def)
  have "sum_list (map (\<lambda>e. e / s) es) = 1"
    using s by (simp add: sum_list_divide_real s_def)
  moreover have "0 < e / s \<and> e / s \<le> 1" if "e \<in> set es" for e
    using member_le_sum_list_real[OF pos that] pos that s by (simp add: s_def)
  ultimately show ?thesis by (auto simp: row')
qed

section \<open>Random initialisation\<close>

lemma random_j_loop:
  assumes M: "rect r c m" and i: "i < r" and n: "n \<le> c"
  shows "for_loop n (\<lambda>j (m, g).
            bind_err (store m i j (val g)) (\<lambda>m. Inr (m, Suc g))) (m, g)
         = Inr (m[i := map (\<lambda>j. val (g + j)) [0..<n] @ drop n (m ! i)], g + n)"
  using n
proof (induction n)
  case 0
  then show ?case by simp
next
  case (Suc n)
  let ?row = "map (\<lambda>j. val (g + j)) [0..<n] @ drop n (m ! i)"
  let ?D = "m[i := ?row]"
  have nc: "n < c" using Suc.prems by simp
  have len: "length (m ! i) = c" using M i by (simp add: rect_nth)
  have lenM: "length m = r" using M by (simp add: rect_def)
  have rD: "rect r c ?D" using M nc len by (intro rect_update) simp_all
  have Di: "?D ! i = ?row" using lenM i by simp
  have upd: "?row[n := v] = map (\<lambda>j. val (g + j)) [0..<n] @ v # drop (Suc n) (m ! i)" for v
    using nc len by (simp add: update_at_split)
  have wr: "store ?D i n v = Inr (m[i := map (\<lambda>j. val (g + j)) [0..<n] @ v # drop (Suc n) (m ! i)])" for v
    by (simp only: store_rect[OF rD i nc] Di upd list_update_overwrite)
  from Suc.IH nc show ?case
    by (simp add: wr del: list_update.simps)
qed

lemma random_i_loop:
  assumes M: "rect r c m" and k: "k \<le> r"
  shows "for_loop k (\<lambda>i.
           for_loop c (\<lambda>j (m, g).
             bind_err (store m i j (val g)) (\<lambda>m. Inr (m, Suc g)))) (m, g)
         = Inr (map (\<lambda>i. map (\<lambda>j. val (g + i * c + j)) [0..<c]) [0..<k] @ drop k m, g + k * c)"
  using k
proof (induction k)
  case 0
  then show ?case by simp
next
  case (Suc k)
  let ?f = "\<lambda>i. map (\<lambda>j. val (g + i * c + j)) [0..<c]"
  let ?D = "map ?f [0..<k] @ drop k m"
  have kr: "k < r" using Suc.prems by simp
  have lenM: "length m = r" using M by (simp add: rect_def)
  have rD: "rect r c ?D"
    using M kr by (auto simp: rect_def dest: in_set_dropD)
  have lenDk: "length (?D ! k) = c" using rD kr by (rule rect_nth)
  have upd: "?D[k := row] = map ?f [0..<k] @ row # drop (Suc k) m" for row
    using kr lenM by (simp add: update_at_split)
  have j: "for_loop c (\<lambda>j (m, g).
             bind_err (store m k j (val g)) (\<lambda>m. Inr (m, Suc g))) (?D, g + k * c)
         = Inr (?D[k := ?f k @ drop c (?D ! k)], g + k * c + c)"
    by (rule random_j_loop[OF rD kr order_refl])
  have e1: "?D[k := ?f k @ drop c (?D ! k)] = map ?f [0..<Suc k] @ drop (Suc k) m"
    using lenDk by (simp add: upd)
  have e2: "g + k * c + c = g + Suc k * c" by simp
  have step: "for_loop c (\<lambda>j (m, g).
             bind_err (store m k j (val g)) (\<lambda>m. Inr (m, Suc g))) (?D, g + k * c)
         = Inr (map ?f [0..<Suc k] @ drop (Suc k) m, g + Suc k * c)"
    using j by (simp only: e1 e2)
  have "for_loop k (\<lambda>i.
           for_loop c (\<lambda>j (m, g).
             bind_err (store m i j (val g)) (\<lambda>m. Inr (m, Suc g)))) (m, g) = Inr (?D, g + k * c)"
    using Suc.IH kr by simp
  then show ?case
    by (simp only: for_loop.simps bind_err_Inr step)
qed

lemma createRandomMatrix_elements:
  assumes "0 \<le> rows_arg" and "0 \<le> cols_arg"
  shows "createRandomMatrix ops RAND_MAX draws g rows_arg cols_arg
         = Inr (spec_random ops RAND_MAX draws g (nat rows_arg) (nat cols_arg),
                g + nat rows_arg * nat cols_arg)"
proof -
  let ?m = "alloc (nat rows_arg) (nat cols_arg) (f_lit ops 0)"
  have M: "rect (nat rows_arg) (nat cols_arg) ?m"
    by (simp add: rect_def alloc_def)
  have d: "drop (nat rows_arg) ?m = []" by (simp add: alloc_def)
  have "\<not> (rows_arg < 0 \<or> cols_arg < 0)" using assms by simp
  then show ?thesis
    by (simp add: createRandomMatrix_def spec_random_def d
        random_i_loop[OF M order_refl, where val = "\<lambda>g. f_div ops (f_conv ops (draws g)) (f_conv ops RAND_MAX)"])
qed

text \<open>
  Claim C9 says that every element of the random matrix is strictly less than 1. When
  \<^verbatim>\<open>rand()\<close> returns \<^verbatim>\<open>RAND_MAX\<close> (here 2147483647), the element is
  \<^verbatim>\<open>(float)RAND_MAX / RAND_MAX\<close>, which is 1, in exact arithmetic as well as in single
  precision, where a finite non-zero value divided by itself is exactly \<^verbatim>\<open>1.0f\<close>.
\<close>

theorem createRandomMatrix_reaches_one:
  "createRandomMatrix exact_arith 2147483647 (constant_source 2147483647) 0 1 1 = Inr ([[1]], 1)
   \<and> \<not> ([[1 :: real]] ! 0 ! 0 < 1)"
  using createRandomMatrix_elements[of 1 1 exact_arith 2147483647 "constant_source 2147483647" 0]
  by (simp add: spec_random_def exact_arith_def rounded_arith_def constant_source_def)

lemma rounded_quotient_unit:
  fixes rnd :: "real \<Rightarrow> real"
  assumes mono: "mono rnd" and r0: "rnd 0 = 0" and r1: "rnd 1 = 1"
    and d: "0 \<le> d" "d \<le> R" and R: "0 < R"
  shows "0 \<le> rnd (rnd (of_int d) / rnd (of_int R)) \<and> rnd (rnd (of_int d) / rnd (of_int R)) \<le> 1"
proof -
  have le: "(0 :: real) \<le> of_int d" "(of_int d :: real) \<le> of_int R" "(1 :: real) \<le> of_int R"
    using d R by simp_all
  have "rnd 0 \<le> rnd (of_int d)" "rnd (of_int d) \<le> rnd (of_int R)" "rnd 1 \<le> rnd (of_int R)"
    by (rule monoD[OF mono le(1)], rule monoD[OF mono le(2)], rule monoD[OF mono le(3)])
  then have a: "0 \<le> rnd (of_int d)" and b: "rnd (of_int d) \<le> rnd (of_int R)"
    and c: "1 \<le> rnd (of_int R)"
    by (simp_all only: r0 r1)
  have q0: "0 \<le> rnd (of_int d) / rnd (of_int R)" using a c by simp
  have q1: "rnd (of_int d) / rnd (of_int R) \<le> 1" using b c by simp
  show ?thesis
    using monoD[OF mono q0] monoD[OF mono q1] r0 r1 by simp
qed

text \<open>
  Claim C9, amended: for all \<open>rows > 0\<close> and \<open>cols > 0\<close> and every state of the
  pseudo-random source, \<^verbatim>\<open>createRandomMatrix\<close> returns a matrix of that shape whose
  elements all lie in the closed interval from 0 to 1. This holds in exact arithmetic and
  under every rounding that is monotone and leaves 0 and 1 as they are, as rounding to
  the nearest \<^verbatim>\<open>float\<close> does.
\<close>

theorem createRandomMatrix_unit_interval:
  assumes "0 < rows_arg" and "0 < cols_arg"
    and "0 < RAND_MAX" and "\<forall>k. 0 \<le> draws k \<and> draws k \<le> RAND_MAX"
    and "mono rnd" and "rnd 0 = 0" and "rnd 1 = 1"
  shows "\<exists>m g'. createRandomMatrix (rounded_arith rnd) RAND_MAX draws g rows_arg cols_arg = Inr (m, g')
           \<and> rows m = nat rows_arg
           \<and> (\<forall>row \<in> set m. length row = nat cols_arg \<and> (\<forall>x \<in> set row. 0 \<le> x \<and> x \<le> 1))"
proof -
  let ?m = "spec_random (rounded_arith rnd) RAND_MAX draws g (nat rows_arg) (nat cols_arg)"
  have run: "createRandomMatrix (rounded_arith rnd) RAND_MAX draws g rows_arg cols_arg
             = Inr (?m, g + nat rows_arg * nat cols_arg)"
    using assms(1,2) by (intro createRandomMatrix_elements) simp_all
  have el: "0 \<le> rnd (rnd (of_int (draws k)) / rnd (of_int RAND_MAX))
            \<and> rnd (rnd (of_int (draws k)) / rnd (of_int RAND_MAX)) \<le> 1" for k
    using assms(5,6,7) _ _ assms(3) by (rule rounded_quotient_unit) (use assms(4) in simp_all)
  have "rows ?m = nat rows_arg"
    by (simp add: spec_random_def rows_def)
  moreover have "\<forall>row \<in> set ?m. length row = nat cols_arg \<and> (\<forall>x \<in> set row. 0 \<le> x \<and> x \<le> 1)"
    using el by (auto simp: spec_random_def rounded_arith_def)
  ultimately show ?thesis using run by blast
qed

theorem createRandomMatrix_unit_interval_witness:
  "(0 :: int) < 1 \<and> (0 :: int) < 32767
   \<and> (\<forall>k. 0 \<le> constant_source 12345 k \<and> constant_source 12345 k \<le> 32767)
   \<and> mono (id :: real \<Rightarrow> real) \<and> id (0 :: real) = 0 \<and> id (1 :: real) = 1
   \<and> (\<exists>m g'. createRandomMatrix (rounded_arith id) 32767 (constant_source 12345) 0 1 1 = Inr (m, g')
           \<and> rows m = nat 1
           \<and> (\<forall>row \<in> set m. length row = nat 1 \<and> (\<forall>x \<in> set row. 0 \<le> x \<and> x \<le> 1)))"
  using createRandomMatrix_unit_interval[of 1 1 32767 "constant_source 12345" id 0]
  by (simp add: constant_source_def mono_def)

end
